theory Spec2Isabelle
  imports Main "HOL-Library.Word"
begin

section \<open>Strings\<close>

text \<open>
  A JavaScript string is a sequence of UTF-16 code units, and \<open>.length\<close> counts code
  units. String literals of the source are ASCII and are written with \<open>str\<close>.
\<close>

type_synonym unit16 = "16 word"
type_synonym jsstring = "unit16 list"

definition str :: "string \<Rightarrow> jsstring" where
  "str s = map (\<lambda>c. of_nat (of_char c)) s"

text \<open>
  The class \<open>\s\<close> of a regular expression without the \<open>u\<close> flag, which is also the
  set of code units that \<open>String.prototype.trim\<close> strips: TAB, LF, VT, FF, CR, SP,
  NBSP, U+1680, U+2000 to U+200A, U+2028, U+2029, U+202F, U+205F, U+3000 and U+FEFF.
\<close>

definition is_ws :: "unit16 \<Rightarrow> bool" where
  "is_ws c \<longleftrightarrow>
     c = 9 \<or> c = 10 \<or> c = 11 \<or> c = 12 \<or> c = 13 \<or> c = 32 \<or> c = 160 \<or> c = 5760 \<or>
     (8192 \<le> c \<and> c \<le> 8202) \<or> c = 8232 \<or> c = 8233 \<or> c = 8239 \<or> c = 8287 \<or>
     c = 12288 \<or> c = 65279"

text \<open>The class \<open>[.?!]\<close> of the lookbehind.\<close>

definition is_term :: "unit16 \<Rightarrow> bool" where
  "is_term c \<longleftrightarrow> c = 46 \<or> c = 63 \<or> c = 33"

definition trim :: "jsstring \<Rightarrow> jsstring" where
  "trim s = rev (dropWhile is_ws (rev (dropWhile is_ws s)))"

section \<open>The chunker\<close>

text \<open>
  \<open>text.split(/(?<=[.?!])\s+/)\<close>. The split scans the text from the left; the pattern
  matches at a position whose preceding code unit is one of \<open>.?!\<close> and takes the longest
  run of white space starting there. \<open>split_from acc prev cs\<close> is the scan with \<open>acc\<close>
  the piece collected since the last match, \<open>prev\<close> telling whether the code unit just
  before the position is one of \<open>.?!\<close>, and \<open>cs\<close> the text from the position on. The
  piece after the last match is always pushed, so the empty text gives one empty piece.
\<close>

function split_from :: "jsstring \<Rightarrow> bool \<Rightarrow> jsstring \<Rightarrow> jsstring list" where
  "split_from acc prev [] = [acc]"
| "split_from acc prev (c # cs) =
     (if prev \<and> is_ws c then acc # split_from [] False (dropWhile is_ws cs)
      else split_from (acc @ [c]) (is_term c) cs)"
  by pat_completeness auto
termination
  by (relation "measure (\<lambda>(acc, prev, cs). length cs)")
     (auto simp: length_dropWhile_le less_Suc_eq_le)

definition split_sentences :: "jsstring \<Rightarrow> jsstring list" where
  "split_sentences text = split_from [] False text"

text \<open>
  The loop of \<open>chunkText\<close> over the sentences, with the state \<open>(chunks, current)\<close>, and
  the flush after it.
\<close>

fun chunk_loop :: "int \<Rightarrow> jsstring list \<Rightarrow> jsstring \<Rightarrow> jsstring list \<Rightarrow> jsstring list \<times> jsstring" where
  "chunk_loop chunkSize chunks current [] = (chunks, current)"
| "chunk_loop chunkSize chunks current (sentence # sentences) =
     (if int (length (current @ sentence)) > chunkSize
      then chunk_loop chunkSize (chunks @ [trim current]) (sentence @ str '' '') sentences
      else chunk_loop chunkSize chunks (current @ sentence @ str '' '') sentences)"

definition chunkText :: "jsstring \<Rightarrow> int \<Rightarrow> jsstring list" where
  "chunkText text chunkSize =
     (case chunk_loop chunkSize [] [] (split_sentences text) of
        (chunks, current) \<Rightarrow> if trim current \<noteq> [] then chunks @ [trim current] else chunks)"

text \<open>
  The text of the chunk that the loop makes of a group of sentences: each sentence is
  appended to \<open>current\<close> with a space after it, and \<open>current\<close> is trimmed when the chunk
  is closed.
\<close>

definition chunk_of :: "jsstring list \<Rightarrow> jsstring" where
  "chunk_of sentences = trim (concat (map (\<lambda>sentence. sentence @ str '' '') sentences))"

text \<open>
  The shape of a list of sentences that a split leaves: a sentence with another one
  after it is not empty and ends with a code unit that is not white space (one of
  \<open>.?!\<close>), and the sentence after it starts with a code unit that is not white space,
  unless it is the empty last sentence of a text that ends with white space.
\<close>

fun sentences_ok :: "jsstring list \<Rightarrow> bool" where
  "sentences_ok [] = True"
| "sentences_ok [s] = True"
| "sentences_ok (s # t # ts) =
     (s \<noteq> [] \<and> \<not> is_ws (last s)
      \<and> (t = [] \<and> ts = [] \<or> t \<noteq> [] \<and> \<not> is_ws (hd t))
      \<and> sentences_ok (t # ts))"

section \<open>Values exchanged with the collaborators\<close>

text \<open>
  An exception carries a message (\<open>err.message\<close>), which is all the handlers read of it.
\<close>

datatype error = Error (message: jsstring)

text \<open>The JSON bodies the handlers send with \<open>res.json\<close>.\<close>

datatype json =
    JNull
  | JBool bool
  | JNum nat
  | JStr jsstring
  | JArr "json list"
  | JObj "(string \<times> json) list"

record response =
  status :: nat
  body :: json

text \<open>
  The record that \<open>/upload\<close> upserts for a chunk: \<open>{id, values, metadata: {file,
  chunkIndex, lineStart, lineEnd, text}}\<close>. The embedding vector is opaque to the
  program, hence a type parameter.
\<close>

record chunk_metadata =
  md_file :: jsstring
  md_chunkIndex :: nat
  md_lineStart :: nat
  md_lineEnd :: nat
  md_text :: jsstring

record 'v vector_record =
  rec_id :: jsstring
  rec_values :: 'v
  rec_metadata :: chunk_metadata

text \<open>
  What \<open>/search\<close> reads of a query result: \<open>result.matches\<close> may be missing, and of a
  match \<open>m\<close> it reads \<open>m.metadata?.text\<close>, \<open>m.metadata?.lineStart\<close> and
  \<open>m.metadata?.lineEnd\<close>, each of which may be missing (\<open>None\<close>).
\<close>

record match_metadata =
  mm_text :: "jsstring option"
  mm_lineStart :: "nat option"
  mm_lineEnd :: "nat option"

record scored_match =
  m_metadata :: "match_metadata option"

record query_result =
  matches :: "scored_match list option"

text \<open>An entry of \<open>allMatches\<close>: \<open>{file, text, lineStart, lineEnd}\<close>.\<close>

record source_match =
  sm_file :: jsstring
  sm_text :: jsstring
  sm_lineStart :: "nat option"
  sm_lineEnd :: "nat option"

section \<open>The collaborators\<close>

text \<open>
  The embedding and generation services, the vector store and the file system are
  external. Each call takes the state of the outside world and returns its outcome, an
  exception being \<open>Inl\<close>, with the new state of the world. An outcome \<open>Inr v\<close> of
  \<open>embeddings_create\<close> stands for a response whose \<open>data[0].embedding\<close> is \<open>v\<close>, and
  an outcome \<open>Inr s\<close> of \<open>chat_create\<close> for one whose
  \<open>choices[0].message.content\<close> is \<open>s\<close>; a response of another shape makes the
  handler throw, as a failed call does. Files are addressed by their name inside the
  upload directory.
\<close>

record ('w, 'v) gateways =
  embeddings_create :: "jsstring \<Rightarrow> jsstring \<Rightarrow> 'w \<Rightarrow> (error + 'v) \<times> 'w"
  upsert :: "jsstring \<Rightarrow> 'v vector_record \<Rightarrow> 'w \<Rightarrow> (error + unit) \<times> 'w"
  listNamespaces :: "'w \<Rightarrow> (error + jsstring list option) \<times> 'w"
  namespace_query :: "jsstring \<Rightarrow> 'v \<Rightarrow> nat \<Rightarrow> bool \<Rightarrow> 'w \<Rightarrow> (error + query_result) \<times> 'w"
  deleteAll :: "jsstring \<Rightarrow> 'w \<Rightarrow> (error + unit) \<times> 'w"
  chat_create :: "jsstring \<Rightarrow> jsstring \<Rightarrow> jsstring \<Rightarrow> string \<Rightarrow> 'w \<Rightarrow> (error + jsstring) \<times> 'w"
  existsSync :: "jsstring \<Rightarrow> 'w \<Rightarrow> bool"
  unlinkSync :: "jsstring \<Rightarrow> 'w \<Rightarrow> (error + unit) \<times> 'w"

text \<open>
  The history of a request: every call a handler makes, with its arguments and its
  outcome, in the order of the calls.
\<close>

datatype 'v event =
    EmbeddingsCreate jsstring jsstring "error + 'v"
  | Upsert jsstring "'v vector_record" "error + unit"
  | ListNamespaces "error + jsstring list option"
  | Query jsstring 'v nat bool "error + query_result"
  | DeleteAll jsstring "error + unit"
  | ChatCreate jsstring jsstring jsstring string "error + jsstring"
  | ExistsSync jsstring bool
  | UnlinkSync jsstring "error + unit"

text \<open>The state a handler threads through its calls: the history so far and the world.\<close>

type_synonym ('w, 'v) st = "'v event list \<times> 'w"

definition call_embeddings_create ::
  "('w, 'v) gateways \<Rightarrow> jsstring \<Rightarrow> jsstring \<Rightarrow> ('w, 'v) st \<Rightarrow> (error + 'v) \<times> ('w, 'v) st" where
  "call_embeddings_create gw model input s =
     (case s of (tr, w) \<Rightarrow> case embeddings_create gw model input w of
        (r, w') \<Rightarrow> (r, (tr @ [EmbeddingsCreate model input r], w')))"

definition call_upsert ::
  "('w, 'v) gateways \<Rightarrow> jsstring \<Rightarrow> 'v vector_record \<Rightarrow> ('w, 'v) st \<Rightarrow> (error + unit) \<times> ('w, 'v) st" where
  "call_upsert gw ns r s =
     (case s of (tr, w) \<Rightarrow> case upsert gw ns r w of
        (res, w') \<Rightarrow> (res, (tr @ [Upsert ns r res], w')))"

definition call_listNamespaces ::
  "('w, 'v) gateways \<Rightarrow> ('w, 'v) st \<Rightarrow> (error + jsstring list option) \<times> ('w, 'v) st" where
  "call_listNamespaces gw s =
     (case s of (tr, w) \<Rightarrow> case listNamespaces gw w of
        (res, w') \<Rightarrow> (res, (tr @ [ListNamespaces res], w')))"

definition call_query ::
  "('w, 'v) gateways \<Rightarrow> jsstring \<Rightarrow> 'v \<Rightarrow> nat \<Rightarrow> bool \<Rightarrow> ('w, 'v) st \<Rightarrow> (error + query_result) \<times> ('w, 'v) st" where
  "call_query gw ns v topK includeMetadata s =
     (case s of (tr, w) \<Rightarrow> case namespace_query gw ns v topK includeMetadata w of
        (res, w') \<Rightarrow> (res, (tr @ [Query ns v topK includeMetadata res], w')))"

definition call_deleteAll ::
  "('w, 'v) gateways \<Rightarrow> jsstring \<Rightarrow> ('w, 'v) st \<Rightarrow> (error + unit) \<times> ('w, 'v) st" where
  "call_deleteAll gw ns s =
     (case s of (tr, w) \<Rightarrow> case deleteAll gw ns w of
        (res, w') \<Rightarrow> (res, (tr @ [DeleteAll ns res], w')))"

definition call_chat_create ::
  "('w, 'v) gateways \<Rightarrow> jsstring \<Rightarrow> jsstring \<Rightarrow> jsstring \<Rightarrow> string \<Rightarrow> ('w, 'v) st \<Rightarrow> (error + jsstring) \<times> ('w, 'v) st" where
  "call_chat_create gw model sys usr temperature s =
     (case s of (tr, w) \<Rightarrow> case chat_create gw model sys usr temperature w of
        (res, w') \<Rightarrow> (res, (tr @ [ChatCreate model sys usr temperature res], w')))"

definition call_existsSync ::
  "('w, 'v) gateways \<Rightarrow> jsstring \<Rightarrow> ('w, 'v) st \<Rightarrow> bool \<times> ('w, 'v) st" where
  "call_existsSync gw name s =
     (case s of (tr, w) \<Rightarrow> (existsSync gw name w, (tr @ [ExistsSync name (existsSync gw name w)], w)))"

definition call_unlinkSync ::
  "('w, 'v) gateways \<Rightarrow> jsstring \<Rightarrow> ('w, 'v) st \<Rightarrow> (error + unit) \<times> ('w, 'v) st" where
  "call_unlinkSync gw name s =
     (case s of (tr, w) \<Rightarrow> case unlinkSync gw name w of
        (res, w') \<Rightarrow> (res, (tr @ [UnlinkSync name res], w')))"

section \<open>The upload handler: indexing\<close>

text \<open>
  The decimal digits of a number, as the template literal \<open>`${file.name}-${i}`\<close>
  prints the loop index.
\<close>

fun num_to_string :: "nat \<Rightarrow> jsstring" where
  "num_to_string n =
     (if n < 10 then [of_nat (48 + n)]
      else num_to_string (n div 10) @ [of_nat (48 + n mod 10)])"

declare num_to_string.simps [simp del]

definition error_response :: "error \<Rightarrow> response" where
  "error_response err = \<lparr>status = 500, body = JObj [(''error'', JStr (message err))]\<rparr>"

text \<open>
  The loop \<open>for (let i = 0; i < chunks.length; i++)\<close> of \<open>/upload\<close>. An exception of
  a call leaves the loop: it is caught by the handler's \<open>catch\<close>.
\<close>

function index_loop ::
  "('w, 'v) gateways \<Rightarrow> jsstring \<Rightarrow> jsstring list \<Rightarrow> nat \<Rightarrow> ('w, 'v) st \<Rightarrow> (error + unit) \<times> ('w, 'v) st" where
  "index_loop gw name chunks i s =
     (if i < length chunks then
        (let chunk = chunks ! i in
         case call_embeddings_create gw (str ''text-embedding-3-small'') chunk s of
           (Inl err, s1) \<Rightarrow> (Inl err, s1)
         | (Inr emb, s1) \<Rightarrow>
             (let lineStart = i * 15 + 1;
                  lineEnd = (i + 1) * 15
              in case call_upsert gw name
                      \<lparr>rec_id = name @ str ''-'' @ num_to_string i,
                       rec_values = emb,
                       rec_metadata =
                         \<lparr>md_file = name, md_chunkIndex = i, md_lineStart = lineStart,
                          md_lineEnd = lineEnd, md_text = chunk\<rparr>\<rparr> s1 of
                   (Inl err, s2) \<Rightarrow> (Inl err, s2)
                 | (Inr u, s2) \<Rightarrow> index_loop gw name chunks (i + 1) s2))
      else (Inr (), s))"
  by pat_completeness auto
termination
  by (relation "measure (\<lambda>(gw, name, chunks, i, s). length chunks - i)") auto

declare index_loop.simps [simp del]

text \<open>
  \<open>/upload\<close> from the point where the text of the file has been extracted (the saving
  of the file and the extraction by format come before and are not modelled): the check
  for blank text, the chunking with the default chunk size, the indexing loop and the
  two responses.
\<close>

definition upload_handler ::
  "('w, 'v) gateways \<Rightarrow> jsstring \<Rightarrow> jsstring \<Rightarrow> ('w, 'v) st \<Rightarrow> response \<times> ('w, 'v) st" where
  "upload_handler gw name text s =
     (if trim text = [] then
        (\<lparr>status = 400, body = JObj [(''error'', JStr (str ''No readable text found in file.''))]\<rparr>, s)
      else
        (let chunks = chunkText text 400 in
         case index_loop gw name chunks 0 s of
           (Inl err, s') \<Rightarrow> (error_response err, s')
         | (Inr u, s') \<Rightarrow>
             (\<lparr>status = 200,
               body = JObj [(''success'', JBool True),
                            (''message'', JStr (name @ str '' uploaded & indexed successfully.'')),
                            (''chunks'', JNum (length chunks))]\<rparr>, s')))"

section \<open>The search handler: retrieval and answer\<close>

text \<open>\<open>Array.prototype.join\<close> on strings.\<close>

fun join :: "jsstring \<Rightarrow> jsstring list \<Rightarrow> jsstring" where
  "join sep [] = []"
| "join sep [x] = x"
| "join sep (x # y # ys) = x @ sep @ join sep (y # ys)"

text \<open>
  The object built for a match \<open>m\<close> of namespace \<open>ns\<close>: \<open>m.metadata?.text || ""\<close>,
  \<open>m.metadata?.lineStart ?? null\<close>, \<open>m.metadata?.lineEnd ?? null\<close>.
\<close>

definition to_source_match :: "jsstring \<Rightarrow> scored_match \<Rightarrow> source_match" where
  "to_source_match ns m =
     \<lparr>sm_file = ns,
      sm_text = (case m_metadata m of None \<Rightarrow> []
                 | Some md \<Rightarrow> (case mm_text md of None \<Rightarrow> [] | Some t \<Rightarrow> t)),
      sm_lineStart = (case m_metadata m of None \<Rightarrow> None | Some md \<Rightarrow> mm_lineStart md),
      sm_lineEnd = (case m_metadata m of None \<Rightarrow> None | Some md \<Rightarrow> mm_lineEnd md)\<rparr>"

text \<open>The loop \<open>for (const ns of namespaces.namespaces || [])\<close> over the namespace names.\<close>

fun search_loop ::
  "('w, 'v) gateways \<Rightarrow> 'v \<Rightarrow> source_match list \<Rightarrow> jsstring list \<Rightarrow> ('w, 'v) st
     \<Rightarrow> (error + source_match list) \<times> ('w, 'v) st" where
  "search_loop gw q_emb allMatches [] s = (Inr allMatches, s)"
| "search_loop gw q_emb allMatches (ns # nss) s =
     (case call_query gw ns q_emb 3 True s of
        (Inl err, s1) \<Rightarrow> (Inl err, s1)
      | (Inr result, s1) \<Rightarrow>
          (case matches result of
             None \<Rightarrow> search_loop gw q_emb allMatches nss s1
           | Some ms \<Rightarrow>
               if length ms \<noteq> 0
               then search_loop gw q_emb (allMatches @ map (to_source_match ns) ms) nss s1
               else search_loop gw q_emb allMatches nss s1))"

definition json_of_num :: "nat option \<Rightarrow> json" where
  "json_of_num n = (case n of None \<Rightarrow> JNull | Some k \<Rightarrow> JNum k)"

definition json_of_source :: "source_match \<Rightarrow> json" where
  "json_of_source m =
     JObj [(''file'', JStr (sm_file m)),
           (''lineStart'', json_of_num (sm_lineStart m)),
           (''lineEnd'', json_of_num (sm_lineEnd m)),
           (''text'', JStr (sm_text m))]"

definition not_found_response :: response where
  "not_found_response =
     \<lparr>status = 200,
      body = JObj [(''answer'', JStr (str ''I could not find that information in your documents.'')),
                   (''sources'', JArr [])]\<rparr>"

definition system_content :: jsstring where
  "system_content = str ''You are a helpful assistant that answers based only on the provided document text. Be concise and accurate.''"

text \<open>
  \<open>/search\<close>; \<open>query\<close> is \<open>req.body.query\<close>, \<open>None\<close> when the body has none. The
  temperature is the literal of the source.
\<close>

definition search_handler ::
  "('w, 'v) gateways \<Rightarrow> jsstring option \<Rightarrow> ('w, 'v) st \<Rightarrow> response \<times> ('w, 'v) st" where
  "search_handler gw query s =
     (case query of
        None \<Rightarrow> (\<lparr>status = 400, body = JObj [(''error'', JStr (str ''Query required.''))]\<rparr>, s)
      | Some q \<Rightarrow>
          if trim q = [] then
            (\<lparr>status = 400, body = JObj [(''error'', JStr (str ''Query required.''))]\<rparr>, s)
          else
            (case call_embeddings_create gw (str ''text-embedding-3-small'') q s of
               (Inl err, s1) \<Rightarrow> (error_response err, s1)
             | (Inr q_emb, s1) \<Rightarrow>
                 (case call_listNamespaces gw s1 of
                    (Inl err, s2) \<Rightarrow> (error_response err, s2)
                  | (Inr namespaces, s2) \<Rightarrow>
                      (case search_loop gw q_emb []
                              (case namespaces of None \<Rightarrow> [] | Some nss \<Rightarrow> nss) s2 of
                         (Inl err, s3) \<Rightarrow> (error_response err, s3)
                       | (Inr allMatches, s3) \<Rightarrow>
                           if length allMatches = 0 then (not_found_response, s3)
                           else
                             (let context = join [10, 10] (map sm_text allMatches) in
                              case call_chat_create gw (str ''gpt-4o-mini'') system_content
                                     (str ''Question: '' @ q @ [10, 10] @ str ''Context:'' @ [10] @ context)
                                     ''0.03'' s3 of
                                (Inl err, s4) \<Rightarrow> (error_response err, s4)
                              | (Inr content, s4) \<Rightarrow>
                                  (\<lparr>status = 200,
                                    body = JObj [(''answer'', JStr (trim content)),
                                                 (''sources'', JArr (map json_of_source allMatches))]\<rparr>,
                                   s4))))))"

section \<open>The delete handler\<close>

definition delete_handler ::
  "('w, 'v) gateways \<Rightarrow> jsstring \<Rightarrow> ('w, 'v) st \<Rightarrow> response \<times> ('w, 'v) st" where
  "delete_handler gw filename s =
     (case call_deleteAll gw filename s of
        (Inl err, s1) \<Rightarrow> (error_response err, s1)
      | (Inr u, s1) \<Rightarrow>
          (case call_existsSync gw filename s1 of
             (True, s2) \<Rightarrow>
               (case call_unlinkSync gw filename s2 of
                  (Inl err, s3) \<Rightarrow> (error_response err, s3)
                | (Inr u', s3) \<Rightarrow>
                    (\<lparr>status = 200,
                      body = JObj [(''message'', JStr (filename @ str '' deleted successfully.''))]\<rparr>, s3))
           | (False, s2) \<Rightarrow>
               (\<lparr>status = 200,
                 body = JObj [(''message'', JStr (filename @ str '' deleted successfully.''))]\<rparr>, s2)))"

section \<open>An in-memory world\<close>

text \<open>
  A world to run the handlers in: a vector store that keeps, for each namespace, its
  records in the order of their first upsert, answers a query with the first \<open>topK\<close>
  records of the namespace and lists the namespaces that hold records; an embedding
  service that answers a fixed number of calls (\<open>mw_embed_quota\<close>) and then fails; the
  names of the stored files. Whether \<open>deleteAll\<close> of a namespace that does not exist
  raises or does nothing is the store's choice, \<open>mw_strict_delete\<close>. An embedding is a
  number here.
\<close>

record mem_world =
  mw_store :: "(jsstring \<times> nat vector_record list) list"
  mw_files :: "jsstring list"
  mw_embed_quota :: nat
  mw_strict_delete :: bool

definition put_record :: "nat vector_record \<Rightarrow> nat vector_record list \<Rightarrow> nat vector_record list" where
  "put_record r rs =
     (if rec_id r \<in> set (map rec_id rs)
      then map (\<lambda>r'. if rec_id r' = rec_id r then r else r') rs
      else rs @ [r])"

definition mem_records :: "mem_world \<Rightarrow> jsstring \<Rightarrow> nat vector_record list" where
  "mem_records w ns = (case map_of (mw_store w) ns of None \<Rightarrow> [] | Some rs \<Rightarrow> rs)"

definition mem_embeddings_create :: "jsstring \<Rightarrow> jsstring \<Rightarrow> mem_world \<Rightarrow> (error + nat) \<times> mem_world" where
  "mem_embeddings_create model input w =
     (if mw_embed_quota w = 0 then (Inl (Error (str ''quota exceeded'')), w)
      else (Inr (length input), w\<lparr>mw_embed_quota := mw_embed_quota w - 1\<rparr>))"

definition mem_upsert :: "jsstring \<Rightarrow> nat vector_record \<Rightarrow> mem_world \<Rightarrow> (error + unit) \<times> mem_world" where
  "mem_upsert ns r w =
     (Inr (),
      w\<lparr>mw_store :=
          (if ns \<in> set (map fst (mw_store w))
           then map (\<lambda>(n, rs). if n = ns then (n, put_record r rs) else (n, rs)) (mw_store w)
           else mw_store w @ [(ns, [r])])\<rparr>)"

definition mem_listNamespaces :: "mem_world \<Rightarrow> (error + jsstring list option) \<times> mem_world" where
  "mem_listNamespaces w = (Inr (Some (map fst (mw_store w))), w)"

definition mem_match :: "bool \<Rightarrow> nat vector_record \<Rightarrow> scored_match" where
  "mem_match includeMetadata r =
     \<lparr>m_metadata =
        (if includeMetadata
         then Some \<lparr>mm_text = Some (md_text (rec_metadata r)),
                    mm_lineStart = Some (md_lineStart (rec_metadata r)),
                    mm_lineEnd = Some (md_lineEnd (rec_metadata r))\<rparr>
         else None)\<rparr>"

definition mem_query ::
  "jsstring \<Rightarrow> nat \<Rightarrow> nat \<Rightarrow> bool \<Rightarrow> mem_world \<Rightarrow> (error + query_result) \<times> mem_world" where
  "mem_query ns v topK includeMetadata w =
     (Inr \<lparr>matches = Some (map (mem_match includeMetadata) (take topK (mem_records w ns)))\<rparr>, w)"

definition mem_deleteAll :: "jsstring \<Rightarrow> mem_world \<Rightarrow> (error + unit) \<times> mem_world" where
  "mem_deleteAll ns w =
     (if mw_strict_delete w \<and> ns \<notin> set (map fst (mw_store w))
      then (Inl (Error (str ''Namespace not found'')), w)
      else (Inr (), w\<lparr>mw_store := filter (\<lambda>(n, rs). n \<noteq> ns) (mw_store w)\<rparr>))"

definition mem_chat_create ::
  "jsstring \<Rightarrow> jsstring \<Rightarrow> jsstring \<Rightarrow> string \<Rightarrow> mem_world \<Rightarrow> (error + jsstring) \<times> mem_world" where
  "mem_chat_create model sys usr temperature w = (Inr (str '' An answer. ''), w)"

definition mem_existsSync :: "jsstring \<Rightarrow> mem_world \<Rightarrow> bool" where
  "mem_existsSync name w \<longleftrightarrow> name \<in> set (mw_files w)"

definition mem_unlinkSync :: "jsstring \<Rightarrow> mem_world \<Rightarrow> (error + unit) \<times> mem_world" where
  "mem_unlinkSync name w = (Inr (), w\<lparr>mw_files := removeAll name (mw_files w)\<rparr>)"

definition mem_gateways :: "(mem_world, nat) gateways" where
  "mem_gateways =
     \<lparr>embeddings_create = mem_embeddings_create,
      upsert = mem_upsert,
      listNamespaces = mem_listNamespaces,
      namespace_query = mem_query,
      deleteAll = mem_deleteAll,
      chat_create = mem_chat_create,
      existsSync = mem_existsSync,
      unlinkSync = mem_unlinkSync\<rparr>"

definition mem_empty :: "nat \<Rightarrow> bool \<Rightarrow> mem_world" where
  "mem_empty quota strict =
     \<lparr>mw_store = [], mw_files = [], mw_embed_quota = quota, mw_strict_delete = strict\<rparr>"

section \<open>Observations on a history\<close>

text \<open>The error an event ended with, if it did.\<close>

fun outcome_error :: "'v event \<Rightarrow> error option" where
  "outcome_error (EmbeddingsCreate model input r) = (case r of Inl e \<Rightarrow> Some e | Inr v \<Rightarrow> None)"
| "outcome_error (Upsert ns r res) = (case res of Inl e \<Rightarrow> Some e | Inr u \<Rightarrow> None)"
| "outcome_error (ListNamespaces res) = (case res of Inl e \<Rightarrow> Some e | Inr u \<Rightarrow> None)"
| "outcome_error (Query ns v topK md res) = (case res of Inl e \<Rightarrow> Some e | Inr u \<Rightarrow> None)"
| "outcome_error (DeleteAll ns res) = (case res of Inl e \<Rightarrow> Some e | Inr u \<Rightarrow> None)"
| "outcome_error (ChatCreate model sys usr t res) = (case res of Inl e \<Rightarrow> Some e | Inr u \<Rightarrow> None)"
| "outcome_error (ExistsSync name b) = None"
| "outcome_error (UnlinkSync name res) = (case res of Inl e \<Rightarrow> Some e | Inr u \<Rightarrow> None)"

text \<open>The upserts of a history, each with its namespace, in the order they were issued.\<close>

fun upserts :: "'v event list \<Rightarrow> (jsstring \<times> 'v vector_record) list" where
  "upserts [] = []"
| "upserts (Upsert ns r res # evs) = (ns, r) # upserts evs"
| "upserts (ev # evs) = upserts evs"

text \<open>The texts sent to the embedding service, in the order of the calls.\<close>

fun embedded :: "'v event list \<Rightarrow> jsstring list" where
  "embedded [] = []"
| "embedded (EmbeddingsCreate model input r # evs) = input # embedded evs"
| "embedded (ev # evs) = embedded evs"

fun is_chat :: "'v event \<Rightarrow> bool" where
  "is_chat (ChatCreate model sys usr t res) = True"
| "is_chat (EmbeddingsCreate model input r) = False"
| "is_chat (Upsert ns r res) = False"
| "is_chat (ListNamespaces res) = False"
| "is_chat (Query ns v topK md res) = False"
| "is_chat (DeleteAll ns res) = False"
| "is_chat (ExistsSync name b) = False"
| "is_chat (UnlinkSync name res) = False"

text \<open>The matches a query of the history returned; none for any other event.\<close>

fun query_matches :: "'v event \<Rightarrow> scored_match list" where
  "query_matches (Query ns v topK md res) =
     (case res of Inl e \<Rightarrow> []
      | Inr r \<Rightarrow> (case matches r of None \<Rightarrow> [] | Some ms \<Rightarrow> ms))"
| "query_matches (EmbeddingsCreate model input r) = []"
| "query_matches (Upsert ns r res) = []"
| "query_matches (ListNamespaces res) = []"
| "query_matches (DeleteAll ns res) = []"
| "query_matches (ChatCreate model sys usr t res) = []"
| "query_matches (ExistsSync name b) = []"
| "query_matches (UnlinkSync name res) = []"

text \<open>The line range of a stored record, with its text.\<close>

definition line_range :: "'v vector_record \<Rightarrow> jsstring \<times> nat \<times> nat" where
  "line_range r = (md_text (rec_metadata r), md_lineStart (rec_metadata r), md_lineEnd (rec_metadata r))"

text \<open>
  A text of two sentences of 201 code units each, which the default chunk size of 400
  puts into two chunks.
\<close>

abbreviation two_chunk_text :: jsstring where
  "two_chunk_text \<equiv> replicate 200 97 @ str ''. '' @ replicate 200 98 @ str ''.''"

text \<open>
  The in-memory world after indexing \<open>a.txt\<close> with four chunks and \<open>b.txt\<close> with one,
  and a store that raises on a missing namespace after indexing \<open>a.txt\<close> with one chunk.
\<close>

abbreviation two_docs_world :: mem_world where
  "two_docs_world \<equiv>
     snd (snd (index_loop mem_gateways (str ''b.txt'') [str ''Five.''] 0
       ([], snd (snd (index_loop mem_gateways (str ''a.txt'')
              [str ''One.'', str ''Two.'', str ''Three.'', str ''Four.''] 0 ([], mem_empty 5 False))))))"

abbreviation strict_world_with_doc :: mem_world where
  "strict_world_with_doc \<equiv>
     snd (snd (index_loop mem_gateways (str ''a.txt'') [str ''One.''] 0 ([], mem_empty 1 True)))"

section \<open>The chunker on the text of the specification's scenario\<close>

text \<open>
  C3, as amended. Chunking \<open>A cat sat. A dog ran. A bird flew.\<close> with a chunk size
  of 20 yields the three chunks \<open>A cat sat.\<close>, \<open>A dog ran.\<close> and \<open>A bird flew.\<close>: the
  test \<open>(current + sentence).length > chunkSize\<close> is made before the sentence is added,
  and \<open>current\<close> ends with a space, so that the second sentence (11 + 10 = 21 > 20)
  already closes the first chunk. Indexed, the three chunks get the line ranges
  [1,15], [16,30] and [31,45].
\<close>

theorem chunk_scenario_three_chunks:
  "chunkText (str ''A cat sat. A dog ran. A bird flew.'') 20
     = [str ''A cat sat.'', str ''A dog ran.'', str ''A bird flew.'']
   \<and> map (line_range \<circ> snd)
        (upserts (fst (snd (index_loop mem_gateways (str ''notes.txt'')
           (chunkText (str ''A cat sat. A dog ran. A bird flew.'') 20) 0 ([], mem_empty 3 False)))))
     = [(str ''A cat sat.'', 1, 15), (str ''A dog ran.'', 16, 30), (str ''A bird flew.'', 31, 45)]"
  by code_simp

text \<open>
  C3 as the specification states it fails: the result is not the two chunks
  \<open>A cat sat. A dog ran.\<close> and \<open>A bird flew.\<close>.
\<close>

theorem chunk_scenario_not_two_chunks:
  "chunkText (str ''A cat sat. A dog ran. A bird flew.'') 20
     \<noteq> [str ''A cat sat. A dog ran.'', str ''A bird flew.'']"
  by code_simp

section \<open>The indexing loop, call by call\<close>

text \<open>One turn of the loop: how a run from index \<open>i\<close> begins.\<close>

lemma index_loop_cases:
  assumes "index_loop gw name chunks i (tr, w) = (res, (tr', w'))"
  obtains
    (finished) "\<not> i < length chunks" "res = Inr ()" "tr' = tr" "w' = w"
  | (embed_fails) e where "i < length chunks" "res = Inl e"
      "tr' = tr @ [EmbeddingsCreate (str ''text-embedding-3-small'') (chunks ! i) (Inl e)]"
  | (upsert_fails) v e where "i < length chunks" "res = Inl e"
      "tr' = tr @ [EmbeddingsCreate (str ''text-embedding-3-small'') (chunks ! i) (Inr v),
                   Upsert name
                     \<lparr>rec_id = name @ str ''-'' @ num_to_string i, rec_values = v,
                      rec_metadata = \<lparr>md_file = name, md_chunkIndex = i, md_lineStart = i * 15 + 1,
                                      md_lineEnd = (i + 1) * 15, md_text = chunks ! i\<rparr>\<rparr> (Inl e)]"
  | (step) v w2 where "i < length chunks"
      "index_loop gw name chunks (i + 1)
         (tr @ [EmbeddingsCreate (str ''text-embedding-3-small'') (chunks ! i) (Inr v),
                Upsert name
                  \<lparr>rec_id = name @ str ''-'' @ num_to_string i, rec_values = v,
                   rec_metadata = \<lparr>md_file = name, md_chunkIndex = i, md_lineStart = i * 15 + 1,
                                   md_lineEnd = (i + 1) * 15, md_text = chunks ! i\<rparr>\<rparr> (Inr ())], w2)
       = (res, (tr', w'))"
proof -
  note eq = index_loop.simps [of gw name chunks i "(tr, w)"]
  show thesis
    using assms that unfolding eq
    by (auto simp: call_embeddings_create_def call_upsert_def Let_def
          split: if_splits prod.splits sum.splits)
qed


lemma index_loop_extends:
  "index_loop gw name chunks i (tr, w) = (res, (tr', w')) \<Longrightarrow> \<exists>evs. tr' = tr @ evs"
proof (induction "length chunks - i" arbitrary: i tr w)
  case 0
  from 0(2) show ?case using 0(1) by (cases rule: index_loop_cases) auto
next
  case (Suc n)
  from Suc.prems show ?case
  proof (cases rule: index_loop_cases)
    case (step v w2)
    from Suc.hyps(2) step(1) have "n = length chunks - (i + 1)" by simp
    from Suc.hyps(1) [OF this step(2)] show ?thesis by auto
  qed auto
qed


lemma index_loop_upserts:
  "index_loop gw name chunks i (tr, w) = (res, (tr @ evs, w')) \<Longrightarrow>
   length (upserts evs) \<le> length chunks - i
   \<and> (res = Inr () \<longrightarrow> length (upserts evs) = length chunks - i)
   \<and> (\<forall>k<length (upserts evs).
         fst (upserts evs ! k) = name
       \<and> rec_id (snd (upserts evs ! k)) = name @ str ''-'' @ num_to_string (i + k)
       \<and> rec_metadata (snd (upserts evs ! k))
           = \<lparr>md_file = name, md_chunkIndex = i + k, md_lineStart = (i + k) * 15 + 1,
              md_lineEnd = (i + k + 1) * 15, md_text = chunks ! (i + k)\<rparr>)"
proof (induction "length chunks - i" arbitrary: i tr w evs)
  case 0
  from 0(2) show ?case using 0(1) by (cases rule: index_loop_cases) auto
next
  case (Suc n)
  from Suc.prems show ?case
  proof (cases rule: index_loop_cases)
    case (step v w2)
    define R where "R = \<lparr>rec_id = name @ str ''-'' @ num_to_string i, rec_values = v,
                   rec_metadata = \<lparr>md_file = name, md_chunkIndex = i, md_lineStart = i * 15 + 1,
                                   md_lineEnd = (i + 1) * 15, md_text = chunks ! i\<rparr>\<rparr>"
    define E where "E = EmbeddingsCreate (str ''text-embedding-3-small'') (chunks ! i) (Inr v)"
    define U where "U = Upsert name R (Inr ())"
    note run = step(2) [folded R_def, folded E_def U_def]
    from index_loop_extends [OF run] obtain evs' where evs: "evs = E # U # evs'"
      by auto
    from Suc.hyps(2) step(1) have n: "n = length chunks - (i + 1)" by simp
    have run': "index_loop gw name chunks (i + 1) (tr @ [E, U], w2) = (res, ((tr @ [E, U]) @ evs', w'))"
      using run evs by simp
    note IH = Suc.hyps(1) [OF n run']
    from IH have IH1: "length (upserts evs') \<le> length chunks - (i + 1)" by blast
    from IH have IH2: "res = Inr () \<longrightarrow> length (upserts evs') = length chunks - (i + 1)" by blast
    have ups: "upserts evs = (name, R) # upserts evs'"
      by (simp add: evs E_def U_def)
    have len: "length (upserts evs) \<le> length chunks - i"
      using IH1 step(1) by (simp add: ups)
    have full: "res = Inr () \<longrightarrow> length (upserts evs) = length chunks - i"
      using IH2 step(1) by (auto simp add: ups)
    have each: "fst (upserts evs ! k) = name
       \<and> rec_id (snd (upserts evs ! k)) = name @ str ''-'' @ num_to_string (i + k)
       \<and> rec_metadata (snd (upserts evs ! k))
           = \<lparr>md_file = name, md_chunkIndex = i + k, md_lineStart = (i + k) * 15 + 1,
              md_lineEnd = (i + k + 1) * 15, md_text = chunks ! (i + k)\<rparr>"
      if k: "k < length (upserts evs)" for k
    proof (cases k)
      case 0
      then show ?thesis by (simp add: ups R_def)
    next
      case (Suc k')
      with k have "k' < length (upserts evs')" by (simp add: ups)
      with IH show ?thesis by (simp add: ups Suc)
    qed
    from len full each show ?thesis by blast
  qed auto
qed



lemma index_loop_outcomes:
  "index_loop gw name chunks i (tr, w) = (res, (tr @ evs, w')) \<Longrightarrow>
   (res = Inr () \<longrightarrow> (\<forall>ev\<in>set evs. outcome_error ev = None))
   \<and> (\<forall>e. res = Inl e \<longrightarrow>
         evs \<noteq> [] \<and> outcome_error (last evs) = Some e \<and> (\<forall>ev\<in>set (butlast evs). outcome_error ev = None))"
proof (induction "length chunks - i" arbitrary: i tr w evs)
  case 0
  from 0(2) show ?case using 0(1) by (cases rule: index_loop_cases) auto
next
  case (Suc n)
  from Suc.prems(1) show ?case
  proof (cases rule: index_loop_cases)
    case (step v w2)
    define R where "R = \<lparr>rec_id = name @ str ''-'' @ num_to_string i, rec_values = v,
                   rec_metadata = \<lparr>md_file = name, md_chunkIndex = i, md_lineStart = i * 15 + 1,
                                   md_lineEnd = (i + 1) * 15, md_text = chunks ! i\<rparr>\<rparr>"
    define E where "E = EmbeddingsCreate (str ''text-embedding-3-small'') (chunks ! i) (Inr v)"
    define U where "U = Upsert name R (Inr ())"
    note run = step(2) [folded R_def, folded E_def U_def]
    from index_loop_extends [OF run] obtain evs' where evs: "evs = E # U # evs'"
      by auto
    from Suc.hyps(2) step(1) have n: "n = length chunks - (i + 1)" by simp
    have run': "index_loop gw name chunks (i + 1) (tr @ [E, U], w2) = (res, ((tr @ [E, U]) @ evs', w'))"
      using run evs by simp
    have ok: "outcome_error E = None" "outcome_error U = None"
      by (simp_all add: E_def U_def)
    from Suc.hyps(1) [OF n run'] show ?thesis
      by (auto simp: evs ok)
  qed auto
qed

lemma index_loop_embedded:
  "index_loop gw name chunks i (tr, w) = (res, (tr @ evs, w')) \<Longrightarrow>
   embedded evs = take (length (embedded evs)) (drop i chunks)"
proof (induction "length chunks - i" arbitrary: i tr w evs)
  case 0
  from 0(2) show ?case using 0(1) by (cases rule: index_loop_cases) auto
next
  case (Suc n)
  from Suc.prems(1) show ?case
  proof (cases rule: index_loop_cases)
    case (step v w2)
    define R where "R = \<lparr>rec_id = name @ str ''-'' @ num_to_string i, rec_values = v,
                   rec_metadata = \<lparr>md_file = name, md_chunkIndex = i, md_lineStart = i * 15 + 1,
                                   md_lineEnd = (i + 1) * 15, md_text = chunks ! i\<rparr>\<rparr>"
    define E where "E = EmbeddingsCreate (str ''text-embedding-3-small'') (chunks ! i) (Inr v)"
    define U where "U = Upsert name R (Inr ())"
    note run = step(2) [folded R_def, folded E_def U_def]
    from index_loop_extends [OF run] obtain evs' where evs: "evs = E # U # evs'"
      by auto
    from Suc.hyps(2) step(1) have n: "n = length chunks - (i + 1)" by simp
    have run': "index_loop gw name chunks (i + 1) (tr @ [E, U], w2) = (res, ((tr @ [E, U]) @ evs', w'))"
      using run evs by simp
    have emb: "embedded evs = chunks ! i # embedded evs'"
      by (simp add: evs E_def U_def)
    have "drop i chunks = chunks ! i # drop (i + 1) chunks"
      using step(1) by (simp add: Cons_nth_drop_Suc)
    with Suc.hyps(1) [OF n run'] show ?thesis
      by (simp add: emb)
  next
    case (embed_fails e)
    then show ?thesis by (simp add: Cons_nth_drop_Suc take_Suc_conv_app_nth hd_drop_conv_nth)
  next
    case (upsert_fails v e)
    then show ?thesis by (simp add: Cons_nth_drop_Suc take_Suc_conv_app_nth hd_drop_conv_nth)
  qed auto
qed



section \<open>The upload handler\<close>

lemma upload_handler_cases:
  assumes "upload_handler gw name text (tr, w) = (resp, (tr', w'))"
  obtains
    (blank) "trim text = []" "tr' = tr" "w' = w"
      "resp = \<lparr>status = 400, body = JObj [(''error'', JStr (str ''No readable text found in file.''))]\<rparr>"
  | (failed) e where "trim text \<noteq> []"
      "index_loop gw name (chunkText text 400) 0 (tr, w) = (Inl e, (tr', w'))"
      "resp = \<lparr>status = 500, body = JObj [(''error'', JStr (message e))]\<rparr>"
  | (indexed) "trim text \<noteq> []"
      "index_loop gw name (chunkText text 400) 0 (tr, w) = (Inr (), (tr', w'))"
      "resp = \<lparr>status = 200,
               body = JObj [(''success'', JBool True),
                            (''message'', JStr (name @ str '' uploaded & indexed successfully.'')),
                            (''chunks'', JNum (length (chunkText text 400)))]\<rparr>"
  using assms that
  by (auto simp: upload_handler_def error_response_def Let_def split: if_splits prod.splits sum.splits)

text \<open>
  C8. For every document, the record upserted for chunk ordinal \<open>i\<close> carries the line
  range \<open>lineStart = 15 i + 1\<close>, \<open>lineEnd = 15 (i + 1)\<close>, whatever the text of the
  document is.
\<close>

theorem line_range_is_function_of_ordinal:
  assumes "upload_handler gw name text ([], w) = (resp, (tr, w'))"
      and "i < length (upserts tr)"
  shows "md_chunkIndex (rec_metadata (snd (upserts tr ! i))) = i
       \<and> md_lineStart (rec_metadata (snd (upserts tr ! i))) = 15 * i + 1
       \<and> md_lineEnd (rec_metadata (snd (upserts tr ! i))) = 15 * (i + 1)"
  using assms(1)
proof (cases rule: upload_handler_cases)
  case blank
  with assms(2) show ?thesis by simp
next
  case (failed e)
  then have "index_loop gw name (chunkText text 400) 0 ([], w) = (Inl e, ([] @ tr, w'))" by simp
  from index_loop_upserts [OF this] assms(2) show ?thesis by simp
next
  case indexed
  then have "index_loop gw name (chunkText text 400) 0 ([], w) = (Inr (), ([] @ tr, w'))" by simp
  from index_loop_upserts [OF this] assms(2) show ?thesis by simp
qed

theorem line_range_is_function_of_ordinal_witness:
  "length (upserts (fst (snd (upload_handler mem_gateways (str ''a.txt'') two_chunk_text
       ([], mem_empty 2 False))))) = 2
   \<and> md_chunkIndex (rec_metadata (snd (upserts (fst (snd (upload_handler mem_gateways (str ''a.txt'')
       two_chunk_text ([], mem_empty 2 False)))) ! 1))) = 1
   \<and> md_lineStart (rec_metadata (snd (upserts (fst (snd (upload_handler mem_gateways (str ''a.txt'')
       two_chunk_text ([], mem_empty 2 False)))) ! 1))) = 16
   \<and> md_lineEnd (rec_metadata (snd (upserts (fst (snd (upload_handler mem_gateways (str ''a.txt'')
       two_chunk_text ([], mem_empty 2 False)))) ! 1))) = 30"
proof -
  have len: "length (upserts (fst (snd (upload_handler mem_gateways (str ''a.txt'') two_chunk_text
       ([], mem_empty 2 False))))) = 2"
    by code_simp
  then have lt: "1 < length (upserts (fst (snd (upload_handler mem_gateways (str ''a.txt'')
       two_chunk_text ([], mem_empty 2 False)))))"
    by simp
  have run: "upload_handler mem_gateways (str ''a.txt'') two_chunk_text ([], mem_empty 2 False)
     = (fst (upload_handler mem_gateways (str ''a.txt'') two_chunk_text ([], mem_empty 2 False)),
        fst (snd (upload_handler mem_gateways (str ''a.txt'') two_chunk_text ([], mem_empty 2 False))),
        snd (snd (upload_handler mem_gateways (str ''a.txt'') two_chunk_text ([], mem_empty 2 False))))"
    by simp
  from line_range_is_function_of_ordinal [OF run lt] len show ?thesis by simp
qed

text \<open>
  C5, as amended. When a call to the embedding service or an upsert fails while a
  document is indexed, the failing call is the last call of the request (the chunks
  after it are neither embedded nor upserted, and the texts embedded so far are the
  first chunks in order), every call before it succeeded, and the caller gets status
  500 with a body that holds the message of the failure and nothing else.
\<close>

theorem upload_failure_aborts_and_reports_message:
  assumes "upload_handler gw name text ([], w) = (resp, (tr, w'))"
      and "ev \<in> set tr" and "outcome_error ev = Some e"
  shows "tr \<noteq> [] \<and> last tr = ev
       \<and> (\<forall>x\<in>set (butlast tr). outcome_error x = None)
       \<and> embedded tr = take (length (embedded tr)) (chunkText text 400)
       \<and> resp = \<lparr>status = 500, body = JObj [(''error'', JStr (message e))]\<rparr>"
  using assms(1)
proof (cases rule: upload_handler_cases)
  case blank
  with assms(2) show ?thesis by simp
next
  case indexed
  then have "index_loop gw name (chunkText text 400) 0 ([], w) = (Inr (), ([] @ tr, w'))" by simp
  from index_loop_outcomes [OF this] assms(2,3) show ?thesis by auto
next
  case (failed e')
  then have run: "index_loop gw name (chunkText text 400) 0 ([], w) = (Inl e', ([] @ tr, w'))" by simp
  from index_loop_outcomes [OF run]
  have ne: "tr \<noteq> []" and l: "outcome_error (last tr) = Some e'"
    and bl: "\<forall>x\<in>set (butlast tr). outcome_error x = None"
    by simp_all
  from ne have "set tr = insert (last tr) (set (butlast tr))"
    by (metis append_butlast_last_id list.simps(15) rotate1.simps(2) set_rotate1)
  with assms(2,3) bl have ev: "ev = last tr" by auto
  with l assms(3) have "e' = e" by simp
  moreover from index_loop_embedded [OF run]
  have "embedded tr = take (length (embedded tr)) (chunkText text 400)" by simp
  ultimately show ?thesis using ne ev bl failed(3) by simp
qed


theorem upload_failure_aborts_and_reports_message_witness:
  "EmbeddingsCreate (str ''text-embedding-3-small'') (replicate 200 98 @ str ''.'')
       (Inl (Error (str ''quota exceeded'')) :: error + nat)
     \<in> set (fst (snd (upload_handler mem_gateways (str ''a.txt'') two_chunk_text ([], mem_empty 1 False))))
   \<and> last (fst (snd (upload_handler mem_gateways (str ''a.txt'') two_chunk_text ([], mem_empty 1 False))))
     = EmbeddingsCreate (str ''text-embedding-3-small'') (replicate 200 98 @ str ''.'')
         (Inl (Error (str ''quota exceeded'')))
   \<and> fst (upload_handler mem_gateways (str ''a.txt'') two_chunk_text ([], mem_empty 1 False))
     = \<lparr>status = 500, body = JObj [(''error'', JStr (message (Error (str ''quota exceeded''))))]\<rparr>"
proof -
  have mem: "EmbeddingsCreate (str ''text-embedding-3-small'') (replicate 200 98 @ str ''.'')
       (Inl (Error (str ''quota exceeded'')) :: error + nat)
     \<in> set (fst (snd (upload_handler mem_gateways (str ''a.txt'') two_chunk_text ([], mem_empty 1 False))))"
    by code_simp
  have err: "outcome_error (EmbeddingsCreate (str ''text-embedding-3-small'') (replicate 200 98 @ str ''.'')
       (Inl (Error (str ''quota exceeded'')) :: error + nat)) = Some (Error (str ''quota exceeded''))"
    by simp
  have run: "upload_handler mem_gateways (str ''a.txt'') two_chunk_text ([], mem_empty 1 False)
     = (fst (upload_handler mem_gateways (str ''a.txt'') two_chunk_text ([], mem_empty 1 False)),
        fst (snd (upload_handler mem_gateways (str ''a.txt'') two_chunk_text ([], mem_empty 1 False))),
        snd (snd (upload_handler mem_gateways (str ''a.txt'') two_chunk_text ([], mem_empty 1 False))))"
    by simp
  from upload_failure_aborts_and_reports_message [OF run mem err] mem show ?thesis by blast
qed

text \<open>
  C5 as the specification states it fails: the error reported does not include the
  number of chunks indexed before the failure. In the in-memory world, an upload that
  fails at its first embedding, with no chunk indexed, and an upload of the same text
  that fails at its second embedding, with one chunk indexed, get the same response.
\<close>

theorem upload_error_same_for_different_counts:
  "fst (upload_handler mem_gateways (str ''a.txt'') two_chunk_text ([], mem_empty 0 False))
     = \<lparr>status = 500, body = JObj [(''error'', JStr (str ''quota exceeded''))]\<rparr>
   \<and> fst (upload_handler mem_gateways (str ''a.txt'') two_chunk_text ([], mem_empty 1 False))
     = \<lparr>status = 500, body = JObj [(''error'', JStr (str ''quota exceeded''))]\<rparr>
   \<and> length (mem_records (snd (snd (upload_handler mem_gateways (str ''a.txt'') two_chunk_text
                ([], mem_empty 0 False)))) (str ''a.txt'')) = 0
   \<and> length (mem_records (snd (snd (upload_handler mem_gateways (str ''a.txt'') two_chunk_text
                ([], mem_empty 1 False)))) (str ''a.txt'')) = 1"
  by code_simp

section \<open>The search handler\<close>

lemma search_loop_success:
  "search_loop gw q_emb acc nss (tr, w) = (Inr pool, (tr', w')) \<Longrightarrow>
   \<exists>results. length results = length nss
     \<and> tr' = tr @ map2 (\<lambda>ns r. Query ns q_emb 3 True (Inr r)) nss results
     \<and> pool = acc @ concat (map2 (\<lambda>ns r. map (to_source_match ns)
                                  (case matches r of None \<Rightarrow> [] | Some ms \<Rightarrow> ms)) nss results)"
proof (induction nss arbitrary: acc tr w)
  case Nil
  then show ?case by simp
next
  case (Cons ns nss)
  obtain res w1 where q: "namespace_query gw ns q_emb 3 True w = (res, w1)"
    by (cases "namespace_query gw ns q_emb 3 True w")
  show ?case
  proof (cases res)
    case (Inl e)
    with Cons.prems q show ?thesis by (simp add: call_query_def)
  next
    case (Inr r)
    define acc' where "acc' = acc @ map (to_source_match ns) (case matches r of None \<Rightarrow> [] | Some ms \<Rightarrow> ms)"
    from Cons.prems q Inr
    have "search_loop gw q_emb acc' nss (tr @ [Query ns q_emb 3 True (Inr r)], w1) = (Inr pool, (tr', w'))"
      by (auto simp: call_query_def acc'_def split: option.splits if_splits)
    from Cons.IH [OF this] obtain results where
      "length results = length nss"
      "tr' = (tr @ [Query ns q_emb 3 True (Inr r)]) @ map2 (\<lambda>ns r. Query ns q_emb 3 True (Inr r)) nss results"
      "pool = acc' @ concat (map2 (\<lambda>ns r. map (to_source_match ns)
                                  (case matches r of None \<Rightarrow> [] | Some ms \<Rightarrow> ms)) nss results)"
      by blast
    then have "length (r # results) = length (ns # nss)
     \<and> tr' = tr @ map2 (\<lambda>ns r. Query ns q_emb 3 True (Inr r)) (ns # nss) (r # results)
     \<and> pool = acc @ concat (map2 (\<lambda>ns r. map (to_source_match ns)
                                  (case matches r of None \<Rightarrow> [] | Some ms \<Rightarrow> ms)) (ns # nss) (r # results))"
      by (simp add: acc'_def)
    then show ?thesis by blast
  qed
qed

lemma search_loop_failure:
  "search_loop gw q_emb acc nss (tr, w) = (Inl e, (tr', w')) \<Longrightarrow>
   \<exists>evs. tr' = tr @ evs \<and> evs \<noteq> [] \<and> outcome_error (last evs) = Some e"
proof (induction nss arbitrary: acc tr w)
  case Nil
  then show ?case by simp
next
  case (Cons ns nss)
  obtain res w1 where q: "namespace_query gw ns q_emb 3 True w = (res, w1)"
    by (cases "namespace_query gw ns q_emb 3 True w")
  show ?case
  proof (cases res)
    case (Inl e')
    with Cons.prems q show ?thesis by (auto simp add: call_query_def)
  next
    case (Inr r)
    define acc' where "acc' = acc @ map (to_source_match ns) (case matches r of None \<Rightarrow> [] | Some ms \<Rightarrow> ms)"
    from Cons.prems q Inr
    have "search_loop gw q_emb acc' nss (tr @ [Query ns q_emb 3 True (Inr r)], w1) = (Inl e, (tr', w'))"
      by (auto simp: call_query_def acc'_def split: option.splits if_splits)
    from Cons.IH [OF this] obtain evs where
      "tr' = (tr @ [Query ns q_emb 3 True (Inr r)]) @ evs" "evs \<noteq> []" "outcome_error (last evs) = Some e"
      by blast
    then have "tr' = tr @ (Query ns q_emb 3 True (Inr r) # evs) \<and> Query ns q_emb 3 True (Inr r) # evs \<noteq> []
       \<and> outcome_error (last (Query ns q_emb 3 True (Inr r) # evs)) = Some e"
      by simp
    then show ?thesis by blast
  qed
qed

lemma search_loop_no_chat:
  "search_loop gw q_emb acc nss (tr, w) = (res, (tr', w')) \<Longrightarrow>
   \<exists>evs. tr' = tr @ evs \<and> (\<forall>ev\<in>set evs. \<not> is_chat ev)"
proof (induction nss arbitrary: acc tr w)
  case Nil
  then show ?case by simp
next
  case (Cons ns nss)
  obtain r w1 where q: "namespace_query gw ns q_emb 3 True w = (r, w1)"
    by (cases "namespace_query gw ns q_emb 3 True w")
  show ?case
  proof (cases r)
    case (Inl e)
    with Cons.prems q show ?thesis by (auto simp add: call_query_def)
  next
    case (Inr qr)
    from Cons.prems q Inr obtain acc' where
      "search_loop gw q_emb acc' nss (tr @ [Query ns q_emb 3 True (Inr qr)], w1) = (res, (tr', w'))"
      by (auto simp: call_query_def split: option.splits if_splits)
    from Cons.IH [OF this] obtain evs where
      "tr' = (tr @ [Query ns q_emb 3 True (Inr qr)]) @ evs" "\<forall>ev\<in>set evs. \<not> is_chat ev"
      by blast
    then have "tr' = tr @ (Query ns q_emb 3 True (Inr qr) # evs)
       \<and> (\<forall>ev\<in>set (Query ns q_emb 3 True (Inr qr) # evs). \<not> is_chat ev)"
      by simp
    then show ?thesis by blast
  qed
qed

text \<open>
  C6. For every query whose embedding, namespace listing and namespace queries succeed,
  \<open>/search\<close> embeds the query, lists the namespaces, and then issues exactly one query
  per listed namespace, in the order of the listing, against that namespace alone, with
  the query's embedding, \<open>topK = 3\<close> and metadata requested. The pool of candidates is
  the concatenation, in that order, of what each of these queries returned, in the order
  it returned it, each match tagged with its namespace; nothing is sorted or rescaled
  across namespaces. It is this pool that the handler goes on with: when it is empty the
  fixed answer is sent, and otherwise its texts, in order, are the context of the one
  generation call and its entries, in order, are the sources of the response.
\<close>

theorem search_pool_is_concatenation_of_namespace_results:
  fixes gw :: "('w, 'v) gateways"
  assumes run: "search_handler gw (Some q) ([], w) = (resp, (tr, w'))"
      and q: "trim q \<noteq> []"
      and ok: "\<forall>ev\<in>set tr. \<not> is_chat ev \<longrightarrow> outcome_error ev = None"
  shows "\<exists>q_emb namespaces nss results pool rest.
           nss = (case namespaces of None \<Rightarrow> [] | Some l \<Rightarrow> l)
         \<and> length results = length nss
         \<and> tr = EmbeddingsCreate (str ''text-embedding-3-small'') q (Inr q_emb)
                # ListNamespaces (Inr namespaces)
                # map2 (\<lambda>ns r. Query ns q_emb 3 True (Inr r)) nss results @ rest
         \<and> pool = concat (map2 (\<lambda>ns r. map (to_source_match ns)
                                   (case matches r of None \<Rightarrow> [] | Some ms \<Rightarrow> ms)) nss results)
         \<and> (pool = [] \<longrightarrow>
               rest = []
             \<and> resp = \<lparr>status = 200,
                       body = JObj [(''answer'', JStr (str ''I could not find that information in your documents.'')),
                                    (''sources'', JArr [])]\<rparr>)
         \<and> (pool \<noteq> [] \<longrightarrow>
               (\<exists>r. rest = [ChatCreate (str ''gpt-4o-mini'') system_content
                                (str ''Question: '' @ q @ [10, 10] @ str ''Context:'' @ [10]
                                   @ join [10, 10] (map sm_text pool))
                                ''0.03'' r]
                  \<and> resp = (case r of
                       Inl e \<Rightarrow> \<lparr>status = 500, body = JObj [(''error'', JStr (message e))]\<rparr>
                     | Inr content \<Rightarrow>
                         \<lparr>status = 200,
                          body = JObj [(''answer'', JStr (trim content)),
                                       (''sources'', JArr (map json_of_source pool))]\<rparr>)))"
proof -
  obtain r1 w1 where e1: "embeddings_create gw (str ''text-embedding-3-small'') q w = (r1, w1)"
    by (cases "embeddings_create gw (str ''text-embedding-3-small'') q w")
  define E where "E = EmbeddingsCreate (str ''text-embedding-3-small'') q r1"
  have c1: "call_embeddings_create gw (str ''text-embedding-3-small'') q ([], w) = (r1, ([E], w1))"
    by (simp add: call_embeddings_create_def e1 E_def)
  show ?thesis
  proof (cases r1)
    case (Inl e)
    with run q c1 have "tr = [E]" by (simp add: search_handler_def)
    with ok Inl show ?thesis by (simp add: E_def)
  next
    case (Inr q_emb)
    obtain r2 w2 where e2: "listNamespaces gw w1 = (r2, w2)"
      by (cases "listNamespaces gw w1")
    define L where "L = (ListNamespaces r2 :: 'v event)"
    have c2: "call_listNamespaces gw ([E], w1) = (r2, ([E, L], w2))"
      by (simp add: call_listNamespaces_def e2 L_def)
    show ?thesis
    proof (cases r2)
      case (Inl e)
      with run q c1 c2 Inr have "tr = [E, L]" by (simp add: search_handler_def)
      with ok Inl show ?thesis by (simp add: L_def)
    next
      case namespaces: (Inr namespaces)
      define nss where "nss = (case namespaces of None \<Rightarrow> [] | Some l \<Rightarrow> l)"
      obtain r3 tr3 w3 where e3: "search_loop gw q_emb [] nss ([E, L], w2) = (r3, (tr3, w3))"
        by (cases "search_loop gw q_emb [] nss ([E, L], w2)") auto
      show ?thesis
      proof (cases r3)
        case (Inl e)
        with run q c1 c2 Inr namespaces e3 have tr: "tr = tr3"
          by (simp add: search_handler_def nss_def)
        from search_loop_failure [OF e3 [unfolded Inl]] obtain evs where
          evs: "tr3 = [E, L] @ evs" "evs \<noteq> []" "outcome_error (last evs) = Some e"
          by blast
        from search_loop_no_chat [OF e3] evs(1) have "\<forall>ev\<in>set evs. \<not> is_chat ev"
          by auto
        with evs(2) have "\<not> is_chat (last evs)" "last evs \<in> set tr"
          by (simp_all add: tr evs(1))
        with ok evs(3) show ?thesis by auto
      next
        case pool: (Inr allMatches)
        from search_loop_success [OF e3 [unfolded pool]] obtain results where
          len: "length results = length nss"
          and tr3: "tr3 = [E, L] @ map2 (\<lambda>ns r. Query ns q_emb 3 True (Inr r)) nss results"
          and all: "allMatches = [] @ concat (map2 (\<lambda>ns r. map (to_source_match ns)
                                  (case matches r of None \<Rightarrow> [] | Some ms \<Rightarrow> ms)) nss results)"
          by blast
        define rest where "rest = drop (length tr3) tr"
        have shape: "tr = tr3 @ rest
            \<and> (allMatches = [] \<longrightarrow>
               rest = []
             \<and> resp = \<lparr>status = 200,
                       body = JObj [(''answer'', JStr (str ''I could not find that information in your documents.'')),
                                    (''sources'', JArr [])]\<rparr>)
            \<and> (allMatches \<noteq> [] \<longrightarrow>
               (\<exists>r. rest = [ChatCreate (str ''gpt-4o-mini'') system_content
                                (str ''Question: '' @ q @ [10, 10] @ str ''Context:'' @ [10]
                                   @ join [10, 10] (map sm_text allMatches))
                                ''0.03'' r]
                  \<and> resp = (case r of
                       Inl e \<Rightarrow> \<lparr>status = 500, body = JObj [(''error'', JStr (message e))]\<rparr>
                     | Inr content \<Rightarrow>
                         \<lparr>status = 200,
                          body = JObj [(''answer'', JStr (trim content)),
                                       (''sources'', JArr (map json_of_source allMatches))]\<rparr>)))"
        proof (cases "allMatches = []")
          case True
          with run q c1 c2 Inr namespaces e3 pool show ?thesis
            by (simp add: search_handler_def nss_def not_found_response_def rest_def)
        next
          case False
          define usr where "usr = str ''Question: '' @ q @ [10, 10] @ str ''Context:'' @ [10]
                                   @ join [10, 10] (map sm_text allMatches)"
          obtain r4 w4 where e4: "chat_create gw (str ''gpt-4o-mini'') system_content usr ''0.03'' w3 = (r4, w4)"
            by (cases "chat_create gw (str ''gpt-4o-mini'') system_content usr ''0.03'' w3")
          define C where "C = (ChatCreate (str ''gpt-4o-mini'') system_content usr ''0.03'' r4 :: 'v event)"
          have c4: "call_chat_create gw (str ''gpt-4o-mini'') system_content usr ''0.03'' (tr3, w3)
              = (r4, (tr3 @ [C], w4))"
            by (simp add: call_chat_create_def e4 C_def)
          from run q c1 c2 Inr namespaces e3 pool False c4
          have "tr = tr3 @ [C]
              \<and> resp = (case r4 of
                       Inl e \<Rightarrow> \<lparr>status = 500, body = JObj [(''error'', JStr (message e))]\<rparr>
                     | Inr content \<Rightarrow>
                         \<lparr>status = 200,
                          body = JObj [(''answer'', JStr (trim content)),
                                       (''sources'', JArr (map json_of_source allMatches))]\<rparr>)"
            by (cases r4)
               (simp_all add: search_handler_def nss_def Let_def error_response_def usr_def)
          with False show ?thesis
            by (auto simp add: rest_def C_def usr_def)
        qed
        have "nss = (case namespaces of None \<Rightarrow> [] | Some l \<Rightarrow> l)
         \<and> length results = length nss
         \<and> tr = EmbeddingsCreate (str ''text-embedding-3-small'') q (Inr q_emb)
                # ListNamespaces (Inr namespaces)
                # map2 (\<lambda>ns r. Query ns q_emb 3 True (Inr r)) nss results @ rest
         \<and> allMatches = concat (map2 (\<lambda>ns r. map (to_source_match ns)
                                   (case matches r of None \<Rightarrow> [] | Some ms \<Rightarrow> ms)) nss results)"
          using shape len all tr3 Inr namespaces
          by (simp add: nss_def E_def L_def)
        with shape show ?thesis by blast
      qed
    qed
  qed
qed

theorem search_pool_is_concatenation_of_namespace_results_witness:
  "fst (search_handler mem_gateways (Some (str ''cat?'')) ([], two_docs_world\<lparr>mw_embed_quota := 1\<rparr>))
     = \<lparr>status = 200,
        body = JObj [(''answer'', JStr (str ''An answer.'')),
                     (''sources'',
                      JArr [JObj [(''file'', JStr (str ''a.txt'')), (''lineStart'', JNum 1),
                                  (''lineEnd'', JNum 15), (''text'', JStr (str ''One.''))],
                            JObj [(''file'', JStr (str ''a.txt'')), (''lineStart'', JNum 16),
                                  (''lineEnd'', JNum 30), (''text'', JStr (str ''Two.''))],
                            JObj [(''file'', JStr (str ''a.txt'')), (''lineStart'', JNum 31),
                                  (''lineEnd'', JNum 45), (''text'', JStr (str ''Three.''))],
                            JObj [(''file'', JStr (str ''b.txt'')), (''lineStart'', JNum 1),
                                  (''lineEnd'', JNum 15), (''text'', JStr (str ''Five.''))]])]\<rparr>
   \<and> (\<exists>results rest. length results = 2
        \<and> fst (snd (search_handler mem_gateways (Some (str ''cat?''))
                       ([], two_docs_world\<lparr>mw_embed_quota := 1\<rparr>)))
            = EmbeddingsCreate (str ''text-embedding-3-small'') (str ''cat?'') (Inr 4)
              # ListNamespaces (Inr (Some [str ''a.txt'', str ''b.txt'']))
              # map2 (\<lambda>ns r. Query ns 4 3 True (Inr r)) [str ''a.txt'', str ''b.txt''] results @ rest)"
proof -
  have run: "search_handler mem_gateways (Some (str ''cat?'')) ([], two_docs_world\<lparr>mw_embed_quota := 1\<rparr>)
     = (fst (search_handler mem_gateways (Some (str ''cat?'')) ([], two_docs_world\<lparr>mw_embed_quota := 1\<rparr>)),
        fst (snd (search_handler mem_gateways (Some (str ''cat?'')) ([], two_docs_world\<lparr>mw_embed_quota := 1\<rparr>))),
        snd (snd (search_handler mem_gateways (Some (str ''cat?'')) ([], two_docs_world\<lparr>mw_embed_quota := 1\<rparr>))))"
    by simp
  have q: "trim (str ''cat?'') \<noteq> []"
    by code_simp
  have ok: "\<forall>ev\<in>set (fst (snd (search_handler mem_gateways (Some (str ''cat?''))
                ([], two_docs_world\<lparr>mw_embed_quota := 1\<rparr>)))).
              \<not> is_chat ev \<longrightarrow> outcome_error ev = None"
    by code_simp
  have resp: "fst (search_handler mem_gateways (Some (str ''cat?'')) ([], two_docs_world\<lparr>mw_embed_quota := 1\<rparr>))
     = \<lparr>status = 200,
        body = JObj [(''answer'', JStr (str ''An answer.'')),
                     (''sources'',
                      JArr [JObj [(''file'', JStr (str ''a.txt'')), (''lineStart'', JNum 1),
                                  (''lineEnd'', JNum 15), (''text'', JStr (str ''One.''))],
                            JObj [(''file'', JStr (str ''a.txt'')), (''lineStart'', JNum 16),
                                  (''lineEnd'', JNum 30), (''text'', JStr (str ''Two.''))],
                            JObj [(''file'', JStr (str ''a.txt'')), (''lineStart'', JNum 31),
                                  (''lineEnd'', JNum 45), (''text'', JStr (str ''Three.''))],
                            JObj [(''file'', JStr (str ''b.txt'')), (''lineStart'', JNum 1),
                                  (''lineEnd'', JNum 15), (''text'', JStr (str ''Five.''))]])]\<rparr>"
    by code_simp
  have hd2: "take 2 (fst (snd (search_handler mem_gateways (Some (str ''cat?''))
                       ([], two_docs_world\<lparr>mw_embed_quota := 1\<rparr>))))
     = [EmbeddingsCreate (str ''text-embedding-3-small'') (str ''cat?'') (Inr 4),
        ListNamespaces (Inr (Some [str ''a.txt'', str ''b.txt'']))]"
    by code_simp
  from search_pool_is_concatenation_of_namespace_results [OF run q ok]
  obtain q_emb namespaces nss results rest where
    p: "nss = (case namespaces of None \<Rightarrow> [] | Some l \<Rightarrow> l)"
       "length results = length nss"
       "fst (snd (search_handler mem_gateways (Some (str ''cat?''))
                       ([], two_docs_world\<lparr>mw_embed_quota := 1\<rparr>)))
          = EmbeddingsCreate (str ''text-embedding-3-small'') (str ''cat?'') (Inr q_emb)
                # ListNamespaces (Inr namespaces)
                # map2 (\<lambda>ns r. Query ns q_emb 3 True (Inr r)) nss results @ rest"
    by blast
  from p(3) hd2 have "q_emb = 4" "namespaces = Some [str ''a.txt'', str ''b.txt'']"
    by simp_all
  with p have "length results = 2
        \<and> fst (snd (search_handler mem_gateways (Some (str ''cat?''))
                       ([], two_docs_world\<lparr>mw_embed_quota := 1\<rparr>)))
            = EmbeddingsCreate (str ''text-embedding-3-small'') (str ''cat?'') (Inr 4)
              # ListNamespaces (Inr (Some [str ''a.txt'', str ''b.txt'']))
              # map2 (\<lambda>ns r. Query ns 4 3 True (Inr r)) [str ''a.txt'', str ''b.txt''] results @ rest"
    by simp
  with resp show ?thesis by blast
qed

text \<open>
  C7. Whenever the retrieval of a query succeeds and yields no match, be it because the
  store lists no namespace or because every namespace's query returns nothing, the
  search answers with status 200, the fixed sentence and an empty list of sources, and
  the generation service is not called.
\<close>

theorem no_matches_gives_not_found_without_generation:
  fixes gw :: "('w, 'v) gateways"
  assumes run: "search_handler gw (Some q) ([], w) = (resp, (tr, w'))"
      and q: "trim q \<noteq> []"
      and ok: "\<forall>ev\<in>set tr. outcome_error ev = None"
      and none: "\<forall>ev\<in>set tr. query_matches ev = []"
  shows "resp = \<lparr>status = 200,
                 body = JObj [(''answer'', JStr (str ''I could not find that information in your documents.'')),
                              (''sources'', JArr [])]\<rparr>
       \<and> (\<forall>ev\<in>set tr. \<not> is_chat ev)"
proof -
  obtain r1 w1 where e1: "embeddings_create gw (str ''text-embedding-3-small'') q w = (r1, w1)"
    by (cases "embeddings_create gw (str ''text-embedding-3-small'') q w")
  define E where "E = EmbeddingsCreate (str ''text-embedding-3-small'') q r1"
  have c1: "call_embeddings_create gw (str ''text-embedding-3-small'') q ([], w) = (r1, ([E], w1))"
    by (simp add: call_embeddings_create_def e1 E_def)
  show ?thesis
  proof (cases r1)
    case (Inl e)
    with run q c1 have "tr = [E]" by (simp add: search_handler_def)
    with ok Inl show ?thesis by (simp add: E_def)
  next
    case (Inr q_emb)
    obtain r2 w2 where e2: "listNamespaces gw w1 = (r2, w2)"
      by (cases "listNamespaces gw w1")
    define L where "L = (ListNamespaces r2 :: 'v event)"
    have c2: "call_listNamespaces gw ([E], w1) = (r2, ([E, L], w2))"
      by (simp add: call_listNamespaces_def e2 L_def)
    show ?thesis
    proof (cases r2)
      case (Inl e)
      with run q c1 c2 Inr have "tr = [E, L]" by (simp add: search_handler_def)
      with ok Inl show ?thesis by (simp add: L_def)
    next
      case namespaces: (Inr namespaces)
      define nss where "nss = (case namespaces of None \<Rightarrow> [] | Some nss \<Rightarrow> nss)"
      obtain r3 tr3 w3 where e3: "search_loop gw q_emb [] nss ([E, L], w2) = (r3, (tr3, w3))"
        by (cases "search_loop gw q_emb [] nss ([E, L], w2)") auto
      have nochat: "\<not> is_chat E" "\<not> is_chat L" by (simp_all add: E_def L_def)
      show ?thesis
      proof (cases r3)
        case (Inl e)
        with run q c1 c2 Inr namespaces e3 have "tr = tr3"
          by (simp add: search_handler_def nss_def)
        with search_loop_failure [OF e3 [unfolded Inl]] ok show ?thesis by auto
      next
        case pool: (Inr allMatches)
        from search_loop_success [OF e3 [unfolded pool]] obtain results where
          len: "length results = length nss"
          and tr3: "tr3 = [E, L] @ map2 (\<lambda>ns r. Query ns q_emb 3 True (Inr r)) nss results"
          and all: "allMatches = [] @ concat (map2 (\<lambda>ns r. map (to_source_match ns)
                                  (case matches r of None \<Rightarrow> [] | Some ms \<Rightarrow> ms)) nss results)"
          by blast
        have sub: "set tr3 \<subseteq> set tr"
        proof (cases "length allMatches = 0")
          case True
          with run q c1 c2 Inr namespaces e3 pool show ?thesis
            by (simp add: search_handler_def nss_def)
        next
          case False
          with run q c1 c2 Inr namespaces e3 pool show ?thesis
            by (auto simp add: search_handler_def nss_def Let_def call_chat_create_def
                split: prod.splits sum.splits)
        qed
        have "(case matches r of None \<Rightarrow> [] | Some ms \<Rightarrow> ms) = []"
          if "(ns, r) \<in> set (zip nss results)" for ns r
        proof -
          from that have "Query ns q_emb 3 True (Inr r) \<in> set tr3"
            unfolding tr3 by force
          with sub none have "query_matches (Query ns q_emb 3 True (Inr r)) = []" by blast
          then show ?thesis by simp
        qed
        then have "allMatches = []"
          unfolding all by auto
        with run q c1 c2 Inr namespaces e3 pool
        have "resp = not_found_response" "tr = tr3"
          by (simp_all add: search_handler_def nss_def)
        moreover have "\<forall>ev\<in>set tr3. \<not> is_chat ev"
          unfolding tr3 using nochat by (auto dest: set_zip_leftD)
        ultimately show ?thesis by (simp add: not_found_response_def)
      qed
    qed
  qed
qed

theorem no_matches_gives_not_found_without_generation_witness:
  "fst (search_handler mem_gateways (Some (str ''Where is the cat?''))
          ([], \<lparr>mw_store = [(str ''empty.txt'', [])], mw_files = [], mw_embed_quota = 1,
                mw_strict_delete = False\<rparr>))
     = \<lparr>status = 200,
        body = JObj [(''answer'', JStr (str ''I could not find that information in your documents.'')),
                     (''sources'', JArr [])]\<rparr>
   \<and> length (fst (snd (search_handler mem_gateways (Some (str ''Where is the cat?''))
          ([], \<lparr>mw_store = [(str ''empty.txt'', [])], mw_files = [], mw_embed_quota = 1,
                mw_strict_delete = False\<rparr>)))) = 3
   \<and> filter is_chat (fst (snd (search_handler mem_gateways (Some (str ''Where is the cat?''))
          ([], \<lparr>mw_store = [(str ''empty.txt'', [])], mw_files = [], mw_embed_quota = 1,
                mw_strict_delete = False\<rparr>)))) = []"
proof -
  have run: "search_handler mem_gateways (Some (str ''Where is the cat?''))
          ([], \<lparr>mw_store = [(str ''empty.txt'', [])], mw_files = [], mw_embed_quota = 1,
                mw_strict_delete = False\<rparr>)
     = (fst (search_handler mem_gateways (Some (str ''Where is the cat?''))
          ([], \<lparr>mw_store = [(str ''empty.txt'', [])], mw_files = [], mw_embed_quota = 1,
                mw_strict_delete = False\<rparr>)),
        fst (snd (search_handler mem_gateways (Some (str ''Where is the cat?''))
          ([], \<lparr>mw_store = [(str ''empty.txt'', [])], mw_files = [], mw_embed_quota = 1,
                mw_strict_delete = False\<rparr>))),
        snd (snd (search_handler mem_gateways (Some (str ''Where is the cat?''))
          ([], \<lparr>mw_store = [(str ''empty.txt'', [])], mw_files = [], mw_embed_quota = 1,
                mw_strict_delete = False\<rparr>))))"
    by simp
  have q: "trim (str ''Where is the cat?'') \<noteq> []"
    by code_simp
  have ok: "\<forall>ev\<in>set (fst (snd (search_handler mem_gateways (Some (str ''Where is the cat?''))
          ([], \<lparr>mw_store = [(str ''empty.txt'', [])], mw_files = [], mw_embed_quota = 1,
                mw_strict_delete = False\<rparr>)))). outcome_error ev = None"
    by code_simp
  have none: "\<forall>ev\<in>set (fst (snd (search_handler mem_gateways (Some (str ''Where is the cat?''))
          ([], \<lparr>mw_store = [(str ''empty.txt'', [])], mw_files = [], mw_embed_quota = 1,
                mw_strict_delete = False\<rparr>)))). query_matches ev = []"
    by code_simp
  have len: "length (fst (snd (search_handler mem_gateways (Some (str ''Where is the cat?''))
          ([], \<lparr>mw_store = [(str ''empty.txt'', [])], mw_files = [], mw_embed_quota = 1,
                mw_strict_delete = False\<rparr>)))) = 3"
    by code_simp
  from no_matches_gives_not_found_without_generation [OF run q ok none] len
  show ?thesis by (simp add: filter_empty_conv)
qed

section \<open>The delete handler\<close>

lemma map_of_filter_other:
  "map_of (filter (\<lambda>(n, rs). n \<noteq> ns) xs) ns = None"
  by (induction xs) auto

lemma delete_handler_cases:
  assumes "delete_handler gw filename (tr, w) = (resp, (tr', w'))"
  obtains
    (store_error) e where "deleteAll gw filename w = (Inl e, w')"
      "tr' = tr @ [DeleteAll filename (Inl e)]"
      "resp = \<lparr>status = 500, body = JObj [(''error'', JStr (message e))]\<rparr>"
  | (no_file) "deleteAll gw filename w = (Inr (), w')" "\<not> existsSync gw filename w'"
      "tr' = tr @ [DeleteAll filename (Inr ()), ExistsSync filename False]"
      "resp = \<lparr>status = 200, body = JObj [(''message'', JStr (filename @ str '' deleted successfully.''))]\<rparr>"
  | (unlink_error) w1 e where "deleteAll gw filename w = (Inr (), w1)" "existsSync gw filename w1"
      "unlinkSync gw filename w1 = (Inl e, w')"
      "tr' = tr @ [DeleteAll filename (Inr ()), ExistsSync filename True, UnlinkSync filename (Inl e)]"
      "resp = \<lparr>status = 500, body = JObj [(''error'', JStr (message e))]\<rparr>"
  | (removed) w1 where "deleteAll gw filename w = (Inr (), w1)" "existsSync gw filename w1"
      "unlinkSync gw filename w1 = (Inr (), w')"
      "tr' = tr @ [DeleteAll filename (Inr ()), ExistsSync filename True, UnlinkSync filename (Inr ())]"
      "resp = \<lparr>status = 200, body = JObj [(''message'', JStr (filename @ str '' deleted successfully.''))]\<rparr>"
  using assms that
  by (auto simp: delete_handler_def call_deleteAll_def call_existsSync_def call_unlinkSync_def
        error_response_def split: prod.splits sum.splits bool.splits if_splits)

text \<open>
  C9, as amended. Deleting a document first calls \<open>deleteAll\<close> on the namespace named
  as the document. When no call of the request fails, the delete answers with status
  200. When \<open>deleteAll\<close> raises, nothing else is called and the error is reported with
  status 500 and its message: the handler does not turn an error of the store into a
  success. In the in-memory store, a delete that succeeds leaves no record in the
  namespace, and where the store accepts \<open>deleteAll\<close> of a missing namespace, a delete
  and a second delete of the same document both succeed.
\<close>

theorem delete_succeeds_when_store_accepts:
  assumes "delete_handler gw filename ([], w) = (resp, (tr, w'))"
  shows "(\<exists>r. tr \<noteq> [] \<and> hd tr = DeleteAll filename r)
       \<and> ((\<forall>ev\<in>set tr. outcome_error ev = None) \<longrightarrow>
            resp = \<lparr>status = 200,
                    body = JObj [(''message'', JStr (filename @ str '' deleted successfully.''))]\<rparr>)
       \<and> (\<forall>e. hd tr = DeleteAll filename (Inl e) \<longrightarrow>
            tr = [DeleteAll filename (Inl e)]
          \<and> resp = \<lparr>status = 500, body = JObj [(''error'', JStr (message e))]\<rparr>)
       \<and> (status (fst (delete_handler mem_gateways filename ([], mw))) = 200 \<longrightarrow>
            mem_records (snd (snd (delete_handler mem_gateways filename ([], mw)))) filename = [])
       \<and> (\<not> mw_strict_delete mw \<longrightarrow>
            status (fst (delete_handler mem_gateways filename ([], mw))) = 200
          \<and> status (fst (delete_handler mem_gateways filename
                ([], snd (snd (delete_handler mem_gateways filename ([], mw)))))) = 200)"
proof -
  have a: "\<exists>r. tr \<noteq> [] \<and> hd tr = DeleteAll filename r"
    using assms by (cases rule: delete_handler_cases) auto
  have b: "(\<forall>ev\<in>set tr. outcome_error ev = None) \<longrightarrow>
            resp = \<lparr>status = 200,
                    body = JObj [(''message'', JStr (filename @ str '' deleted successfully.''))]\<rparr>"
    using assms by (cases rule: delete_handler_cases) auto
  have c: "\<forall>e. hd tr = DeleteAll filename (Inl e) \<longrightarrow>
            tr = [DeleteAll filename (Inl e)]
          \<and> resp = \<lparr>status = 500, body = JObj [(''error'', JStr (message e))]\<rparr>"
    using assms by (cases rule: delete_handler_cases) auto
  have lenient: "status (fst (delete_handler mem_gateways filename ([], m))) = 200
      \<and> \<not> mw_strict_delete (snd (snd (delete_handler mem_gateways filename ([], m))))"
    if "\<not> mw_strict_delete m" for m
    using that
    by (simp add: delete_handler_def call_deleteAll_def call_existsSync_def call_unlinkSync_def
          mem_gateways_def mem_deleteAll_def mem_unlinkSync_def split: bool.splits)
  have d: "status (fst (delete_handler mem_gateways filename ([], mw))) = 200 \<longrightarrow>
            mem_records (snd (snd (delete_handler mem_gateways filename ([], mw)))) filename = []"
    by (simp add: delete_handler_def call_deleteAll_def call_existsSync_def call_unlinkSync_def
          mem_gateways_def mem_deleteAll_def mem_unlinkSync_def mem_records_def map_of_filter_other
          error_response_def split: bool.splits)
  from a b c d lenient show ?thesis by blast
qed

theorem delete_succeeds_when_store_accepts_witness:
  "mem_records two_docs_world (str ''a.txt'') \<noteq> []
   \<and> status (fst (delete_handler mem_gateways (str ''a.txt'') ([], two_docs_world))) = 200
   \<and> mem_records (snd (snd (delete_handler mem_gateways (str ''a.txt'') ([], two_docs_world)))) (str ''a.txt'') = []
   \<and> status (fst (delete_handler mem_gateways (str ''a.txt'')
        ([], snd (snd (delete_handler mem_gateways (str ''a.txt'') ([], two_docs_world)))))) = 200"
proof -
  have run: "delete_handler mem_gateways (str ''a.txt'') ([], two_docs_world)
     = (fst (delete_handler mem_gateways (str ''a.txt'') ([], two_docs_world)),
        fst (snd (delete_handler mem_gateways (str ''a.txt'') ([], two_docs_world))),
        snd (snd (delete_handler mem_gateways (str ''a.txt'') ([], two_docs_world))))"
    by simp
  have before: "mem_records two_docs_world (str ''a.txt'') \<noteq> []"
    by code_simp
  have lenient: "\<not> mw_strict_delete two_docs_world"
    by code_simp
  from delete_succeeds_when_store_accepts [OF run, of two_docs_world] lenient before
  show ?thesis by blast
qed

text \<open>
  C9 as the specification states it fails: with a store that raises on a namespace that
  does not exist, the first delete of an indexed document succeeds, and the second
  delete, like the delete of a document that was never indexed, is answered with status
  500.
\<close>

theorem delete_absent_namespace_fails_on_strict_store:
  "fst (delete_handler mem_gateways (str ''a.txt'') ([], strict_world_with_doc))
     = \<lparr>status = 200, body = JObj [(''message'', JStr (str ''a.txt deleted successfully.''))]\<rparr>
   \<and> fst (delete_handler mem_gateways (str ''a.txt'')
        ([], snd (snd (delete_handler mem_gateways (str ''a.txt'') ([], strict_world_with_doc)))))
     = \<lparr>status = 500, body = JObj [(''error'', JStr (str ''Namespace not found''))]\<rparr>
   \<and> fst (delete_handler mem_gateways (str ''never.txt'') ([], mem_empty 0 True))
     = \<lparr>status = 500, body = JObj [(''error'', JStr (str ''Namespace not found''))]\<rparr>"
  by code_simp


section \<open>The chunker: chunks are made of whole sentences\<close>

lemma is_ws_space [simp]: "is_ws 32"
  by (simp add: is_ws_def)

lemma str_space [simp]: "str '' '' = [32]"
  by (simp add: str_def)

lemma trim_Nil [simp]: "trim [] = []"
  by (simp add: trim_def)

lemma length_trim_le: "length (trim s) \<le> length s"
proof -
  have "length (trim s) \<le> length (dropWhile is_ws s)"
    unfolding trim_def by (metis length_dropWhile_le length_rev)
  also have "\<dots> \<le> length s" by (rule length_dropWhile_le)
  finally show ?thesis .
qed

lemma trim_snoc_ws: "is_ws c \<Longrightarrow> trim (s @ [c]) = trim s"
proof (cases "\<forall>x\<in>set s. is_ws x")
  case True
  assume "is_ws c"
  with True have "\<forall>x\<in>set (s @ [c]). is_ws x" by simp
  then have "dropWhile is_ws (s @ [c]) = []"
    by (simp only: dropWhile_eq_Nil_conv)
  moreover from True have "dropWhile is_ws s = []"
    by (simp only: dropWhile_eq_Nil_conv)
  ultimately show ?thesis by (simp only: trim_def)
next
  case False
  assume c: "is_ws c"
  from False obtain x where "x \<in> set s" "\<not> is_ws x" by blast
  then have "dropWhile is_ws (s @ [c]) = dropWhile is_ws s @ [c]"
    by (rule dropWhile_append1)
  then have "rev (dropWhile is_ws (s @ [c])) = c # rev (dropWhile is_ws s)"
    by simp
  with c show ?thesis by (simp only: trim_def dropWhile.simps if_True)
qed

lemma length_trim_snoc_ws: "is_ws c \<Longrightarrow> length (trim (s @ [c])) \<le> length s"
  by (simp add: trim_snoc_ws length_trim_le)

lemma chunk_of_Nil [simp]: "chunk_of [] = []"
  by (simp add: chunk_of_def)

lemma chunk_of_snoc:
  "chunk_of (g @ [s]) = trim (concat (map (\<lambda>sentence. sentence @ [32]) g) @ s)"
proof -
  have "chunk_of (g @ [s]) = trim ((concat (map (\<lambda>sentence. sentence @ [32]) g) @ s) @ [32])"
    by (simp add: chunk_of_def)
  then show ?thesis by (simp only: trim_snoc_ws [OF is_ws_space])
qed

text \<open>
  The invariant of the loop: the chunks closed so far are the texts of consecutive
  groups of whole sentences, \<open>current\<close> is the text of the group being filled, and a
  group whose chunk is longer than the bound is a single sentence longer than the
  bound.
\<close>

lemma chunk_loop_groups:
  assumes "chunk_loop n chunks current ss = (chunks', current')"
      and "current = concat (map (\<lambda>sentence. sentence @ [32]) g)"
      and "int (length (chunk_of g)) > n \<longrightarrow> (\<exists>s. g = [s] \<and> int (length s) > n)"
  shows "\<exists>gs g'. chunks' = chunks @ map chunk_of gs
          \<and> current' = concat (map (\<lambda>sentence. sentence @ [32]) g')
          \<and> g @ ss = concat gs @ g'
          \<and> (\<forall>x\<in>set (gs @ [g']). int (length (chunk_of x)) > n \<longrightarrow> (\<exists>s. x = [s] \<and> int (length s) > n))"
  using assms
proof (induction ss arbitrary: chunks current g)
  case Nil
  then have "chunks' = chunks @ map chunk_of []
          \<and> current' = concat (map (\<lambda>sentence. sentence @ [32]) g)
          \<and> g @ [] = concat [] @ g
          \<and> (\<forall>x\<in>set ([] @ [g]). int (length (chunk_of x)) > n \<longrightarrow> (\<exists>s. x = [s] \<and> int (length s) > n))"
    by simp
  then show ?case by blast
next
  case (Cons s ss)
  show ?case
  proof (cases "int (length (current @ s)) > n")
    case True
    with Cons.prems(1)
    have run: "chunk_loop n (chunks @ [trim current]) (s @ [32]) ss = (chunks', current')"
      by simp
    have cur: "s @ [32] = concat (map (\<lambda>sentence. sentence @ [32]) [s])" by simp
    have "length (chunk_of [s]) \<le> length s"
      using chunk_of_snoc [of "[]" s] by (simp add: length_trim_le)
    then have q: "int (length (chunk_of [s])) > n \<longrightarrow> (\<exists>s'. [s] = [s'] \<and> int (length s') > n)"
      by auto
    from Cons.IH [OF run cur q] obtain gs g' where
      IH: "chunks' = (chunks @ [trim current]) @ map chunk_of gs"
          "current' = concat (map (\<lambda>sentence. sentence @ [32]) g')"
          "[s] @ ss = concat gs @ g'"
          "\<forall>x\<in>set (gs @ [g']). int (length (chunk_of x)) > n \<longrightarrow> (\<exists>s. x = [s] \<and> int (length s) > n)"
      by blast
    have "trim current = chunk_of g"
      by (simp add: chunk_of_def Cons.prems(2))
    with IH Cons.prems(3)
    have "chunks' = chunks @ map chunk_of (g # gs)
          \<and> current' = concat (map (\<lambda>sentence. sentence @ [32]) g')
          \<and> g @ s # ss = concat (g # gs) @ g'
          \<and> (\<forall>x\<in>set ((g # gs) @ [g']). int (length (chunk_of x)) > n \<longrightarrow> (\<exists>s. x = [s] \<and> int (length s) > n))"
      by simp
    then show ?thesis by blast
  next
    case False
    with Cons.prems(1)
    have run: "chunk_loop n chunks (current @ s @ [32]) ss = (chunks', current')"
      by simp
    have cur: "current @ s @ [32] = concat (map (\<lambda>sentence. sentence @ [32]) (g @ [s]))"
      by (simp add: Cons.prems(2))
    have "length (chunk_of (g @ [s])) \<le> length (current @ s)"
      unfolding chunk_of_snoc Cons.prems(2) by (rule length_trim_le)
    with False have q: "int (length (chunk_of (g @ [s]))) > n \<longrightarrow> (\<exists>s'. g @ [s] = [s'] \<and> int (length s') > n)"
      by auto
    from Cons.IH [OF run cur q] show ?thesis by simp
  qed
qed

text \<open>
  C2. For every text and every chunk size of at least 1, the sentences of the text fall
  into consecutive groups, each chunk is the text of one group (so no chunk ends inside
  a sentence), the groups cover all sentences but for a last group that has no text but
  white space, and a chunk is longer than the chunk size only when its group is a single
  sentence that is itself longer than the chunk size.
\<close>

theorem chunks_are_whole_sentences_within_bound:
  assumes "1 \<le> chunkSize"
  shows "\<exists>groups rest.
           concat groups @ rest = split_sentences text
         \<and> chunkText text chunkSize = map chunk_of groups
         \<and> chunk_of rest = []
         \<and> (\<forall>g\<in>set groups. int (length (chunk_of g)) > chunkSize \<longrightarrow>
               (\<exists>sentence. g = [sentence] \<and> int (length sentence) > chunkSize))"
proof -
  obtain chunks current where
    loop: "chunk_loop chunkSize [] [] (split_sentences text) = (chunks, current)"
    by (cases "chunk_loop chunkSize [] [] (split_sentences text)")
  have "[] = concat (map (\<lambda>sentence. sentence @ [32]) ([] :: jsstring list))" by simp
  moreover from assms
  have "int (length (chunk_of [])) > chunkSize \<longrightarrow> (\<exists>s. [] = [s] \<and> int (length s) > chunkSize)"
    by simp
  ultimately obtain gs g' where
    inv: "chunks = [] @ map chunk_of gs"
         "current = concat (map (\<lambda>sentence. sentence @ [32]) g')"
         "[] @ split_sentences text = concat gs @ g'"
         "\<forall>x\<in>set (gs @ [g']). int (length (chunk_of x)) > chunkSize \<longrightarrow>
             (\<exists>s. x = [s] \<and> int (length s) > chunkSize)"
    using chunk_loop_groups [OF loop] by blast
  have cur: "trim current = chunk_of g'"
    by (simp add: chunk_of_def inv(2))
  show ?thesis
  proof (cases "trim current = []")
    case True
    with loop inv cur have "concat gs @ g' = split_sentences text
         \<and> chunkText text chunkSize = map chunk_of gs
         \<and> chunk_of g' = []
         \<and> (\<forall>g\<in>set gs. int (length (chunk_of g)) > chunkSize \<longrightarrow>
               (\<exists>sentence. g = [sentence] \<and> int (length sentence) > chunkSize))"
      by (simp add: chunkText_def)
    then show ?thesis by blast
  next
    case False
    with loop inv cur have "concat (gs @ [g']) @ [] = split_sentences text
         \<and> chunkText text chunkSize = map chunk_of (gs @ [g'])
         \<and> chunk_of [] = []
         \<and> (\<forall>g\<in>set (gs @ [g']). int (length (chunk_of g)) > chunkSize \<longrightarrow>
               (\<exists>sentence. g = [sentence] \<and> int (length sentence) > chunkSize))"
      by (simp add: chunkText_def)
    then show ?thesis by blast
  qed
qed


theorem chunks_are_whole_sentences_within_bound_witness:
  "(1::int) \<le> 20
   \<and> (\<exists>groups rest.
           concat groups @ rest = split_sentences (str ''A cat sat. A dog ran. A bird flew.'')
         \<and> chunkText (str ''A cat sat. A dog ran. A bird flew.'') 20 = map chunk_of groups
         \<and> chunk_of rest = [])"
proof -
  have h: "(1::int) \<le> 20" by simp
  from chunks_are_whole_sentences_within_bound [OF h, of "str ''A cat sat. A dog ran. A bird flew.''"] h
  show ?thesis by blast
qed

section \<open>The chunker: a first sentence longer than the bound\<close>

lemma split_from_not_Nil: "split_from acc prev cs \<noteq> []"
  by (induction acc prev cs rule: split_from.induct) auto

lemma chunk_loop_prefix:
  "chunk_loop n chunks current ss = (chunks', current') \<Longrightarrow> \<exists>more. chunks' = chunks @ more"
proof (induction ss arbitrary: chunks current)
  case Nil
  then show ?case by simp
next
  case (Cons s ss)
  show ?case
  proof (cases "int (length (current @ s)) > n")
    case True
    with Cons.prems have "chunk_loop n (chunks @ [trim current]) (s @ [32]) ss = (chunks', current')"
      by simp
    from Cons.IH [OF this] show ?thesis by auto
  next
    case False
    with Cons.prems have "chunk_loop n chunks (current @ s @ [32]) ss = (chunks', current')"
      by simp
    from Cons.IH [OF this] show ?thesis .
  qed
qed

text \<open>
  C10, as amended. For every text whose first sentence is longer than the chunk size, the
  chunker emits the empty string as chunk 0, so that an output chunk has empty text;
  when that sentence holds a code unit that is not white space, chunk 1 is the sentence
  with the white space at its two ends trimmed.
\<close>

theorem oversized_first_sentence_gives_empty_first_chunk:
  assumes "int (length (hd (split_sentences text))) > chunkSize"
  shows "split_sentences text \<noteq> []
       \<and> chunkText text chunkSize \<noteq> []
       \<and> chunkText text chunkSize ! 0 = []
       \<and> [] \<in> set (chunkText text chunkSize)
       \<and> (trim (hd (split_sentences text)) \<noteq> [] \<longrightarrow>
            1 < length (chunkText text chunkSize)
          \<and> chunkText text chunkSize ! 1 = trim (hd (split_sentences text)))"
proof -
  obtain s1 rest where ss: "split_sentences text = s1 # rest"
    using split_from_not_Nil [of "[]" False "text"]
    by (cases "split_sentences text") (auto simp: split_sentences_def)
  with assms have long: "int (length s1) > chunkSize" by simp
  obtain chunks current where
    loop: "chunk_loop chunkSize [[]] (s1 @ [32]) rest = (chunks, current)"
    by (cases "chunk_loop chunkSize [[]] (s1 @ [32]) rest")
  with long ss have whole: "chunk_loop chunkSize [] [] (split_sentences text) = (chunks, current)"
    by simp
  from chunk_loop_prefix [OF loop] obtain more where more: "chunks = [] # more"
    by auto
  have first: "chunkText text chunkSize \<noteq> [] \<and> chunkText text chunkSize ! 0 = []"
    using whole more by (simp add: chunkText_def)
  then have mem: "[] \<in> set (chunkText text chunkSize)"
    by (metis length_greater_0_conv nth_mem)
  have second: "1 < length (chunkText text chunkSize)
          \<and> chunkText text chunkSize ! 1 = trim s1" if ne: "trim s1 \<noteq> []"
  proof (cases rest)
    case Nil
    with loop have "chunks = [[]]" "current = s1 @ [32]" by simp_all
    with whole ne show ?thesis
      by (simp add: chunkText_def trim_snoc_ws)
  next
    case (Cons s2 rest')
    from long have "int (length ((s1 @ [32]) @ s2)) > chunkSize" by simp
    with loop Cons
    have "chunk_loop chunkSize ([[]] @ [trim (s1 @ [32])]) (s2 @ [32]) rest' = (chunks, current)"
      by simp
    from chunk_loop_prefix [OF this] obtain more' where "chunks = [] # trim s1 # more'"
      by (auto simp: trim_snoc_ws)
    with whole show ?thesis by (simp add: chunkText_def)
  qed
  from first mem second ss show ?thesis by simp
qed

theorem oversized_first_sentence_gives_empty_first_chunk_witness:
  "int (length (hd (split_sentences (str ''Hello world. Bye.'')))) > 5
   \<and> chunkText (str ''Hello world. Bye.'') 5 ! 0 = []
   \<and> chunkText (str ''Hello world. Bye.'') 5 ! 1 = str ''Hello world.''
   \<and> [] \<in> set (chunkText (str ''Hello world. Bye.'') 5)"
proof -
  have long: "int (length (hd (split_sentences (str ''Hello world. Bye.'')))) > 5"
    by code_simp
  have tr: "trim (hd (split_sentences (str ''Hello world. Bye.''))) = str ''Hello world.''"
    by code_simp
  have ne: "str ''Hello world.'' \<noteq> []"
    by (simp add: str_def)
  from oversized_first_sentence_gives_empty_first_chunk [OF long] long tr ne
  show ?thesis by simp
qed

text \<open>
  C10 as stated fails where it says that the oversized sentence follows as a later chunk.
  For a text of five spaces and a chunk size of 3 the first sentence, the five spaces,
  is longer than the bound, and the output is the empty chunk alone; for the text
  \<open>  abcdef\<close> the chunk that follows the empty one is \<open>abcdef\<close>, not the sentence
  \<open>  abcdef\<close>.
\<close>

theorem oversized_sentence_not_always_a_later_chunk:
  "int (length (hd (split_sentences (str ''     '')))) > 3
   \<and> chunkText (str ''     '') 3 = [[]]
   \<and> hd (split_sentences (str ''  abcdef'')) = str ''  abcdef''
   \<and> int (length (hd (split_sentences (str ''  abcdef'')))) > 3
   \<and> chunkText (str ''  abcdef'') 3 = [[], str ''abcdef'']"
  by code_simp

section \<open>The chunker: the chunks against the sentences\<close>

lemma is_term_not_ws: "is_term c \<Longrightarrow> \<not> is_ws c"
  by (auto simp: is_term_def is_ws_def)

lemma trim_all_ws_left: "\<forall>x\<in>set a. is_ws x \<Longrightarrow> trim (a @ b) = trim b"
  by (simp add: trim_def)

lemma trim_all_ws_right: "\<forall>x\<in>set b. is_ws x \<Longrightarrow> trim (a @ b) = trim a"
proof (induction b rule: rev_induct)
  case Nil
  then show ?case by simp
next
  case (snoc c b)
  then have "trim ((a @ b) @ [c]) = trim (a @ b)"
    by (intro trim_snoc_ws) simp
  with snoc show ?case by simp
qed

lemma trim_no_leading: "q \<noteq> [] \<Longrightarrow> \<not> is_ws (hd q) \<Longrightarrow> trim q = rev (dropWhile is_ws (rev q))"
  by (simp add: trim_def dropWhile_eq_self_iff [THEN iffD2])

lemma trim_no_trailing:
  assumes "p \<noteq> []" "\<not> is_ws (last p)"
  shows "trim p = dropWhile is_ws p"
proof -
  from assms have mem: "last p \<in> set p" "\<not> is_ws (last p)" by simp_all
  then have ne: "dropWhile is_ws p \<noteq> []"
    by (auto simp only: dropWhile_eq_Nil_conv)
  have "p = takeWhile is_ws p @ dropWhile is_ws p" by simp
  then have "last p = last (takeWhile is_ws p @ dropWhile is_ws p)" by simp
  also have "\<dots> = last (dropWhile is_ws p)" using ne by (simp only: last_append if_False)
  finally have "\<not> is_ws (hd (rev (dropWhile is_ws p)))"
    using assms(2) by (simp add: hd_rev)
  then have "dropWhile is_ws (rev (dropWhile is_ws p)) = rev (dropWhile is_ws p)"
    by (simp only: dropWhile_eq_self_iff) simp
  then show ?thesis by (simp add: trim_def)
qed

lemma trim_append_both:
  assumes "p \<noteq> []" "\<not> is_ws (last p)" "q \<noteq> []" "\<not> is_ws (hd q)"
  shows "trim (p @ [32] @ q) = trim p @ [32] @ trim q"
proof -
  from assms(1,2) have "last p \<in> set p" "\<not> is_ws (last p)" by simp_all
  then have l: "dropWhile is_ws (p @ [32] @ q) = dropWhile is_ws p @ [32] @ q"
    by (rule dropWhile_append1)
  from assms(3,4) have "hd q \<in> set (rev q)" "\<not> is_ws (hd q)" by simp_all
  then have r: "dropWhile is_ws (rev q @ [32] @ rev (dropWhile is_ws p))
      = dropWhile is_ws (rev q) @ [32] @ rev (dropWhile is_ws p)"
    by (rule dropWhile_append1)
  have "trim (p @ [32] @ q) = rev (dropWhile is_ws (rev q @ [32] @ rev (dropWhile is_ws p)))"
    by (simp only: trim_def l) simp
  also have "\<dots> = dropWhile is_ws p @ [32] @ rev (dropWhile is_ws (rev q))"
    by (simp only: r) simp
  finally show ?thesis
    by (simp only: trim_no_trailing [OF assms(1,2)] trim_no_leading [OF assms(3,4)])
qed

lemma trim_not_Nil: "x \<in> set s \<Longrightarrow> \<not> is_ws x \<Longrightarrow> trim s \<noteq> []"
proof -
  assume x: "x \<in> set s" "\<not> is_ws x"
  then have "dropWhile is_ws s \<noteq> []"
    by (auto simp only: dropWhile_eq_Nil_conv)
  then have "hd (dropWhile is_ws s) \<in> set (rev (dropWhile is_ws s))"
    "\<not> is_ws (hd (dropWhile is_ws s))"
    by (simp_all add: hd_dropWhile)
  then have "dropWhile is_ws (rev (dropWhile is_ws s)) \<noteq> []"
    by (auto simp only: dropWhile_eq_Nil_conv)
  then show ?thesis by (simp add: trim_def)
qed


lemma sentences_ok_suffix: "sentences_ok (xs @ ys) \<Longrightarrow> sentences_ok ys"
proof (induction xs)
  case Nil
  then show ?case by simp
next
  case (Cons x xs)
  then show ?case by (cases "xs @ ys") auto
qed

lemma sentences_ok_inner:
  "sentences_ok (xs @ ys) \<Longrightarrow> ys \<noteq> [] \<Longrightarrow> s \<in> set xs \<Longrightarrow> s \<noteq> [] \<and> \<not> is_ws (last s)"
proof (induction xs)
  case Nil
  then show ?case by simp
next
  case (Cons x xs)
  from Cons.prems(2) obtain t ts where t: "xs @ ys = t # ts" by (cases "xs @ ys") auto
  with Cons.prems(1) have x: "x \<noteq> [] \<and> \<not> is_ws (last x)" and ok: "sentences_ok (xs @ ys)"
    by simp_all
  from Cons.prems(3) have "s = x \<or> s \<in> set xs" by simp
  then show ?case
  proof
    assume "s = x"
    with x show ?thesis by simp
  next
    assume "s \<in> set xs"
    with Cons.IH [OF ok Cons.prems(2)] show ?thesis .
  qed
qed

lemma sentences_ok_boundary:
  "sentences_ok (xs @ t # ts) \<Longrightarrow> xs \<noteq> [] \<Longrightarrow> t = [] \<and> ts = [] \<or> t \<noteq> [] \<and> \<not> is_ws (hd t)"
proof (induction xs)
  case Nil
  then show ?case by simp
next
  case (Cons x xs)
  show ?case
  proof (cases xs)
    case Nil
    with Cons.prems(1) show ?thesis by simp
  next
    case (Cons y ys)
    with Cons.prems(1) have "sentences_ok (xs @ t # ts)" by simp
    with Cons.IH Cons show ?thesis by simp
  qed
qed

lemma chunk_of_both:
  assumes "s \<noteq> []" "\<not> is_ws (last s)" "t \<noteq> []" "\<not> is_ws (hd t)"
  shows "chunk_of ((h1 @ [s]) @ t # h2) = chunk_of (h1 @ [s]) @ [32] @ chunk_of (t # h2)"
proof -
  define p where "p = concat (map (\<lambda>sentence. sentence @ [32]) h1) @ s"
  define q where "q = t @ [32] @ concat (map (\<lambda>sentence. sentence @ [32]) h2)"
  from assms have p: "p \<noteq> []" "\<not> is_ws (last p)" and q: "q \<noteq> []" "\<not> is_ws (hd q)"
    by (simp_all add: p_def q_def)
  have "chunk_of ((h1 @ [s]) @ t # h2) = trim (p @ [32] @ q)"
    by (simp add: chunk_of_def p_def q_def)
  also have "\<dots> = trim p @ [32] @ trim q"
    by (rule trim_append_both [OF p q])
  also have "trim p = chunk_of (h1 @ [s])"
    by (simp add: chunk_of_snoc p_def)
  also have "trim q = chunk_of (t # h2)"
    by (simp add: chunk_of_def q_def)
  finally show ?thesis .
qed

lemma chunk_of_empty_last: "chunk_of (g @ [[]]) = chunk_of g"
  by (simp only: chunk_of_snoc) (simp add: chunk_of_def)

lemma chunk_of_not_Nil: "s \<in> set g \<Longrightarrow> x \<in> set s \<Longrightarrow> \<not> is_ws x \<Longrightarrow> chunk_of g \<noteq> []"
  unfolding chunk_of_def by (rule trim_not_Nil [of x]) auto

lemma join_Cons: "xs \<noteq> [] \<Longrightarrow> join sep (x # xs) = x @ sep @ join sep xs"
  by (cases xs) simp_all

lemma join_eq_Nil: "\<forall>x\<in>set xs. x \<noteq> [] \<Longrightarrow> join sep xs = [] \<Longrightarrow> xs = []"
  by (induction sep xs rule: join.induct) auto

lemma concat_with_spaces: "ss \<noteq> [] \<Longrightarrow> concat (map (\<lambda>sentence. sentence @ [32]) ss) = join [32] ss @ [32]"
  by (induction "[32] :: jsstring" ss rule: join.induct) simp_all

lemma chunk_of_join: "chunk_of ss = trim (join [32] ss)"
proof (cases ss)
  case Nil
  then show ?thesis by simp
next
  case (Cons s ss')
  then have "concat (map (\<lambda>sentence. sentence @ [32]) ss) = join [32] ss @ [32]"
    by (intro concat_with_spaces) simp
  then have "chunk_of ss = trim (join [32] ss @ [32])"
    by (simp add: chunk_of_def)
  then show ?thesis by (simp only: trim_snoc_ws [OF is_ws_space])
qed

lemma chunks_of_groups:
  "sentences_ok (concat groups) \<Longrightarrow>
   join [32] (filter (\<lambda>c. c \<noteq> []) (map chunk_of groups)) = chunk_of (concat groups)"
proof (induction groups)
  case Nil
  then show ?case by simp
next
  case (Cons g groups)
  from Cons.prems have ok: "sentences_ok (concat groups)"
    using sentences_ok_suffix [of g "concat groups"] by simp
  note IH = Cons.IH [OF ok]
  define F where "F = filter (\<lambda>c. c \<noteq> []) (map chunk_of groups)"
  have F: "\<forall>x\<in>set F. x \<noteq> []" by (simp add: F_def)
  show ?case
  proof (cases "g = []")
    case True
    with IH show ?thesis by simp
  next
    case g: False
    show ?thesis
    proof (cases "concat groups")
      case Nil
      with IH have "join [32] F = []" by (simp add: F_def)
      with F have "F = []" by (rule join_eq_Nil)
      then have "join [32] (filter (\<lambda>c. c \<noteq> []) (map chunk_of (g # groups))) = chunk_of g"
        by (simp add: F_def [symmetric])
      moreover from Nil have "chunk_of (concat (g # groups)) = chunk_of g"
        by (simp del: concat_eq_Nil_conv)
      ultimately show ?thesis by simp
    next
      case (Cons t ts)
      from g obtain h1 s where g_eq: "g = h1 @ [s]" by (metis rev_exhaust)
      from Cons.prems Cons have ok': "sentences_ok (g @ t # ts)" by simp
      from sentences_ok_inner [OF ok', of s] g_eq
      have s: "s \<noteq> []" "\<not> is_ws (last s)" by simp_all
      then have "last s \<in> set s" by simp
      with s g_eq have gne: "chunk_of g \<noteq> []"
        by (intro chunk_of_not_Nil [of s g "last s"]) simp_all
      from sentences_ok_boundary [OF ok' g]
      show ?thesis
      proof
        assume "t = [] \<and> ts = []"
        with Cons have c: "concat groups = [[]]" by simp
        have "chunk_of [[]] = []" by (simp add: chunk_of_def trim_def)
        with IH c have "join [32] F = []" by (simp add: F_def)
        with F have "F = []" by (rule join_eq_Nil)
        with c gne show ?thesis
          by (simp add: F_def [symmetric] chunk_of_empty_last)
      next
        assume t: "t \<noteq> [] \<and> \<not> is_ws (hd t)"
        then have "hd t \<in> set t" by simp
        with t have tne: "chunk_of (t # ts) \<noteq> []"
          by (intro chunk_of_not_Nil [of t "t # ts" "hd t"]) simp_all
        with IH Cons have "join [32] F \<noteq> []" by (simp add: F_def)
        then have Fne: "F \<noteq> []" by auto
        have "chunk_of (concat (g # groups)) = chunk_of g @ [32] @ chunk_of (t # ts)"
          using chunk_of_both [of s t h1 ts] s t by (simp add: g_eq Cons)
        also have "chunk_of (t # ts) = join [32] F"
          using IH Cons by (simp add: F_def)
        also have "chunk_of g @ [32] @ join [32] F = join [32] (chunk_of g # F)"
          using Fne by (simp add: join_Cons)
        finally show ?thesis using gne by (simp add: F_def)
      qed
    qed
  qed
qed


lemma split_from_hd:
  "acc \<noteq> [] \<Longrightarrow> hd (split_from acc prev cs) \<noteq> [] \<and> hd (hd (split_from acc prev cs)) = hd acc"
  by (induction acc prev cs rule: split_from.induct) auto

lemma split_from_ok:
  "(prev \<longrightarrow> acc \<noteq> [] \<and> \<not> is_ws (last acc)) \<Longrightarrow> sentences_ok (split_from acc prev cs)"
proof (induction acc prev cs rule: split_from.induct)
  case (1 acc prev)
  then show ?case by simp
next
  case (2 acc prev c cs)
  show ?case
  proof (cases "prev \<and> is_ws c")
    case True
    define ds where "ds = dropWhile is_ws cs"
    from True "2.IH"(1) have ok: "sentences_ok (split_from [] False ds)"
      by (simp add: ds_def)
    obtain t ts where tts: "split_from [] False ds = t # ts"
      using split_from_not_Nil [of "[]" False ds] by (cases "split_from [] False ds") auto
    have "t = [] \<and> ts = [] \<or> t \<noteq> [] \<and> \<not> is_ws (hd t)"
    proof (cases ds)
      case Nil
      with tts show ?thesis by simp
    next
      case (Cons d ds')
      then have "dropWhile is_ws cs \<noteq> []" by (simp add: ds_def)
      from hd_dropWhile [OF this] Cons have d: "\<not> is_ws d" by (simp add: ds_def)
      from Cons tts have "split_from [d] (is_term d) ds' = t # ts" by simp
      with split_from_hd [of "[d]" "is_term d" ds'] have "t \<noteq> [] \<and> hd t = d" by simp
      with d show ?thesis by simp
    qed
    with True "2.prems" ok tts show ?thesis by (simp add: ds_def)
  next
    case False
    have "is_term c \<longrightarrow> acc @ [c] \<noteq> [] \<and> \<not> is_ws (last (acc @ [c]))"
      by (simp add: is_term_not_ws)
    with False "2.IH"(2) show ?thesis by auto
  qed
qed

lemma split_sentences_ok: "sentences_ok (split_sentences s)"
  by (simp add: split_sentences_def split_from_ok)

lemma chunk_loop_partition:
  assumes "chunk_loop n chunks current ss = (chunks', current')"
      and "current = concat (map (\<lambda>sentence. sentence @ [32]) g)"
  shows "\<exists>gs g'. chunks' = chunks @ map chunk_of gs
          \<and> current' = concat (map (\<lambda>sentence. sentence @ [32]) g')
          \<and> g @ ss = concat gs @ g'
          \<and> (g \<noteq> [] \<or> ss = [] \<or> int (length (hd ss)) \<le> n \<longrightarrow>
                (\<forall>x\<in>set gs. x \<noteq> []) \<and> (g \<noteq> [] \<or> ss \<noteq> [] \<longrightarrow> g' \<noteq> []))"
  using assms
proof (induction ss arbitrary: chunks current g)
  case Nil
  then have "chunks' = chunks @ map chunk_of []
          \<and> current' = concat (map (\<lambda>sentence. sentence @ [32]) g)
          \<and> g @ [] = concat [] @ g
          \<and> (g \<noteq> [] \<or> ([] :: jsstring list) = [] \<or> int (length (hd ([] :: jsstring list))) \<le> n \<longrightarrow>
                (\<forall>x\<in>set ([] :: jsstring list list). x \<noteq> []) \<and> (g \<noteq> [] \<or> ([] :: jsstring list) \<noteq> [] \<longrightarrow> g \<noteq> []))"
    by simp
  then show ?case by blast
next
  case (Cons s ss)
  show ?case
  proof (cases "int (length (current @ s)) > n")
    case True
    with Cons.prems(1)
    have run: "chunk_loop n (chunks @ [trim current]) (s @ [32]) ss = (chunks', current')"
      by simp
    have cur: "s @ [32] = concat (map (\<lambda>sentence. sentence @ [32]) [s])" by simp
    from Cons.IH [OF run cur] obtain gs g' where
      IH: "chunks' = (chunks @ [trim current]) @ map chunk_of gs"
          "current' = concat (map (\<lambda>sentence. sentence @ [32]) g')"
          "[s] @ ss = concat gs @ g'"
          "(\<forall>x\<in>set gs. x \<noteq> []) \<and> g' \<noteq> []"
      by auto
    have tc: "trim current = chunk_of g"
      by (simp add: chunk_of_def Cons.prems(2))
    have "g \<noteq> []" if "int (length (hd (s # ss))) \<le> n"
    proof
      assume "g = []"
      with Cons.prems(2) have "current = []" by simp
      with True that show False by simp
    qed
    with IH tc
    have "chunks' = chunks @ map chunk_of (g # gs)
          \<and> current' = concat (map (\<lambda>sentence. sentence @ [32]) g')
          \<and> g @ s # ss = concat (g # gs) @ g'
          \<and> (g \<noteq> [] \<or> s # ss = [] \<or> int (length (hd (s # ss))) \<le> n \<longrightarrow>
                (\<forall>x\<in>set (g # gs). x \<noteq> []) \<and> (g \<noteq> [] \<or> s # ss \<noteq> [] \<longrightarrow> g' \<noteq> []))"
      by auto
    then show ?thesis by blast
  next
    case False
    with Cons.prems(1)
    have run: "chunk_loop n chunks (current @ s @ [32]) ss = (chunks', current')"
      by simp
    have cur: "current @ s @ [32] = concat (map (\<lambda>sentence. sentence @ [32]) (g @ [s]))"
      by (simp add: Cons.prems(2))
    from Cons.IH [OF run cur] obtain gs g' where
      IH: "chunks' = chunks @ map chunk_of gs"
          "current' = concat (map (\<lambda>sentence. sentence @ [32]) g')"
          "(g @ [s]) @ ss = concat gs @ g'"
          "(\<forall>x\<in>set gs. x \<noteq> []) \<and> g' \<noteq> []"
      by auto
    then have "chunks' = chunks @ map chunk_of gs
          \<and> current' = concat (map (\<lambda>sentence. sentence @ [32]) g')
          \<and> g @ s # ss = concat gs @ g'
          \<and> (g \<noteq> [] \<or> s # ss = [] \<or> int (length (hd (s # ss))) \<le> n \<longrightarrow>
                (\<forall>x\<in>set gs. x \<noteq> []) \<and> (g \<noteq> [] \<or> s # ss \<noteq> [] \<longrightarrow> g' \<noteq> []))"
      by simp
    then show ?thesis by blast
  qed
qed

lemma chunkText_partition:
  "\<exists>gs g'. concat gs @ g' = split_sentences s
     \<and> chunkText s n = map chunk_of gs @ (if chunk_of g' \<noteq> [] then [chunk_of g'] else [])
     \<and> (int (length (hd (split_sentences s))) \<le> n \<longrightarrow> (\<forall>x\<in>set gs. x \<noteq> []) \<and> g' \<noteq> [])"
proof -
  obtain chunks current where
    loop: "chunk_loop n [] [] (split_sentences s) = (chunks, current)"
    by (cases "chunk_loop n [] [] (split_sentences s)")
  have ne: "split_sentences s \<noteq> []"
    by (simp add: split_sentences_def split_from_not_Nil)
  have "[] = concat (map (\<lambda>sentence. sentence @ [32]) ([] :: jsstring list))" by simp
  from chunk_loop_partition [OF loop this] ne obtain gs g' where
    p: "chunks = map chunk_of gs"
       "current = concat (map (\<lambda>sentence. sentence @ [32]) g')"
       "split_sentences s = concat gs @ g'"
       "int (length (hd (split_sentences s))) \<le> n \<longrightarrow> (\<forall>x\<in>set gs. x \<noteq> []) \<and> g' \<noteq> []"
    by auto
  have "trim current = chunk_of g'"
    by (simp add: chunk_of_def p(2))
  with loop p have "concat gs @ g' = split_sentences s
     \<and> chunkText s n = map chunk_of gs @ (if chunk_of g' \<noteq> [] then [chunk_of g'] else [])
     \<and> (int (length (hd (split_sentences s))) \<le> n \<longrightarrow> (\<forall>x\<in>set gs. x \<noteq> []) \<and> g' \<noteq> [])"
    by (simp add: chunkText_def)
  then show ?thesis by blast
qed

text \<open>
  Whatever the chunk size, the chunks that are not empty, joined with single spaces, are
  the sentences of the text joined with single spaces and trimmed at both ends.
\<close>

proposition nonempty_chunks_reconstruct_sentences:
  "join (str '' '') (filter (\<lambda>chunk. chunk \<noteq> []) (chunkText s n))
     = trim (join (str '' '') (split_sentences s))"
proof -
  from chunkText_partition [of s n] obtain gs g' where
    p: "concat gs @ g' = split_sentences s"
       "chunkText s n = map chunk_of gs @ (if chunk_of g' \<noteq> [] then [chunk_of g'] else [])"
    by blast
  have "filter (\<lambda>chunk. chunk \<noteq> []) (chunkText s n)
      = filter (\<lambda>chunk. chunk \<noteq> []) (map chunk_of (gs @ [g']))"
    by (simp add: p(2))
  moreover have "sentences_ok (concat (gs @ [g']))"
    using split_sentences_ok [of s] p(1) by simp
  ultimately have "join [32] (filter (\<lambda>chunk. chunk \<noteq> []) (chunkText s n))
      = chunk_of (concat (gs @ [g']))"
    using chunks_of_groups [of "gs @ [g']"] by simp
  also have "\<dots> = trim (join [32] (split_sentences s))"
    using p(1) by (simp add: chunk_of_join)
  finally show ?thesis by simp
qed

text \<open>
  When the first sentence is not longer than the chunk size, no chunk is empty, and the
  chunks joined with single spaces are the sentences joined with single spaces and
  trimmed at both ends.
\<close>

proposition chunks_reconstruct_sentences_when_first_fits:
  assumes "int (length (hd (split_sentences s))) \<le> n"
  shows "[] \<notin> set (chunkText s n)
       \<and> join (str '' '') (chunkText s n) = trim (join (str '' '') (split_sentences s))"
proof -
  from chunkText_partition [of s n] assms obtain gs g' where
    p: "concat gs @ g' = split_sentences s"
       "chunkText s n = map chunk_of gs @ (if chunk_of g' \<noteq> [] then [chunk_of g'] else [])"
       "\<forall>x\<in>set gs. x \<noteq> []" "g' \<noteq> []"
    by blast
  have ok: "sentences_ok (concat gs @ g')"
    using split_sentences_ok [of s] p(1) by simp
  have "chunk_of x \<noteq> []" if x: "x \<in> set gs" for x
  proof -
    from p(3) x obtain t where t: "t \<in> set x" by (cases x) auto
    with x have "t \<in> set (concat gs)" by auto
    from sentences_ok_inner [OF ok p(4) this] have "t \<noteq> []" "\<not> is_ws (last t)" by simp_all
    then have "last t \<in> set t" by simp
    from chunk_of_not_Nil [OF t this \<open>\<not> is_ws (last t)\<close>] show ?thesis .
  qed
  then have none: "[] \<notin> set (chunkText s n)"
    unfolding p(2) by (auto split: if_splits) metis+
  then have "filter (\<lambda>chunk. chunk \<noteq> []) (chunkText s n) = chunkText s n"
    by (simp add: filter_id_conv) metis
  with nonempty_chunks_reconstruct_sentences [of s n] none show ?thesis by simp
qed

text \<open>
  C1, at the failing input. With the default chunk size of 400, a text that is one
  sentence of 402 code units gives the chunks \<open>""\<close> and the sentence: the loop pushes
  \<open>current.trim()\<close> while \<open>current\<close> is still empty, which the flush after the loop
  guards against (\<open>if (current.trim())\<close>) and the loop does not. Joined with single
  spaces the chunks read as the sentence with a space before it, and the upload sends
  the empty chunk to the embedding service first. By the two propositions above, a first
  sentence longer than the chunk size is the only way for the chunks to differ from the
  sentences.
\<close>

theorem long_first_sentence_breaks_reconstruction:
  "split_sentences (replicate 401 97 @ str ''.'') = [replicate 401 97 @ str ''.'']
   \<and> chunkText (replicate 401 97 @ str ''.'') 400 = [[], replicate 401 97 @ str ''.'']
   \<and> join (str '' '') (chunkText (replicate 401 97 @ str ''.'') 400)
       = str '' '' @ replicate 401 97 @ str ''.''
   \<and> take 1 (embedded (fst (snd (upload_handler mem_gateways (str ''a.txt'')
          (replicate 401 97 @ str ''.'') ([], mem_empty 2 False))))) = [[]]"
  by code_simp


end
